theory Spec2Isabelle
  imports Main "HOL-Library.Word" "HOL-Library.Sublist"
begin

unbundle bit_operations_syntax

section \<open>complex.hpp: the complex number value type\<close>

text \<open>
  \<^verbatim>\<open>template<typename T> class complex\<close> holds the two members \<^verbatim>\<open>m_re\<close> and
  \<^verbatim>\<open>m_im\<close>. The element type is any type with exact ring arithmetic.
\<close>

record 'a complex =
  m_re :: 'a
  m_im :: 'a

text \<open>
  The member operator \<^verbatim>\<open>complex& operator *= (const complex& other)\<close>: two
  assignments executed one after the other on the object itself. The second
  statement reads \<^verbatim>\<open>m_re\<close> after the first statement has stored into it.
\<close>

definition mul_assign :: "'a::ring complex \<Rightarrow> 'a complex \<Rightarrow> 'a complex" where
  "mul_assign this other =
     (let this = this\<lparr>m_re := m_re this * m_re other - m_im this * m_im other\<rparr>;
          this = this\<lparr>m_im := m_re this * m_im other + m_im this * m_re other\<rparr>
      in this)"

text \<open>
  The free function \<^verbatim>\<open>operator * (const complex<T>& lhs, const complex<T>& rhs)\<close>:
  both components are computed into locals from the unchanged operands.
\<close>

definition mul :: "'a::ring complex \<Rightarrow> 'a complex \<Rightarrow> 'a complex" where
  "mul lhs rhs =
     (let re = m_re lhs * m_re rhs - m_im lhs * m_im rhs;
          im = m_re lhs * m_im rhs + m_im lhs * m_re rhs
      in \<lparr>m_re = re, m_im = im\<rparr>)"

section \<open>binary\_semaphore.hpp\<close>

text \<open>
  The semaphore's observable state is the flag \<^verbatim>\<open>m_ready\<close>; the mutex and the
  condition variable only make each member function's critical section atomic.
\<close>

record binary_semaphore =
  m_ready :: bool

definition binary_semaphore_new :: "bool \<Rightarrow> binary_semaphore" where
  "binary_semaphore_new ready = \<lparr>m_ready = ready\<rparr>"

definition get_value :: "binary_semaphore \<Rightarrow> bool" where
  "get_value s = m_ready s"

text \<open>\<^verbatim>\<open>post()\<close>: store true into the flag (then notify one waiter).\<close>

definition post :: "binary_semaphore \<Rightarrow> binary_semaphore" where
  "post s = s\<lparr>m_ready := True\<rparr>"

text \<open>
  \<^verbatim>\<open>wait()\<close>: \<^verbatim>\<open>while (!m_ready) m_condvar.wait(lock); m_ready = false;\<close>.
  When the flag is set the call clears it and returns (\<open>Some\<close> of the new state).
  When the flag is clear the caller stays in the loop until some other thread posts:
  executed on its own the call does not return, which is the value \<open>None\<close>.
\<close>

definition wait :: "binary_semaphore \<Rightarrow> binary_semaphore option" where
  "wait s = (if m_ready s then Some (s\<lparr>m_ready := False\<rparr>) else None)"

subsection \<open>Sequences of post and wait calls\<close>

datatype sem_op = Post | Wait

text \<open>
  One call of the sequence, applied to the semaphore and the number of \<^verbatim>\<open>wait\<close>
  calls that have returned so far. A \<^verbatim>\<open>wait\<close> that finds the flag clear has not
  returned: it leaves the flag as it is and is not counted.
\<close>

fun sem_step :: "binary_semaphore \<times> nat \<Rightarrow> sem_op \<Rightarrow> binary_semaphore \<times> nat" where
  "sem_step (s, k) Post = (post s, k)"
| "sem_step (s, k) Wait = (case wait s of Some s' \<Rightarrow> (s', Suc k) | None \<Rightarrow> (s, k))"

definition sem_run :: "binary_semaphore \<times> nat \<Rightarrow> sem_op list \<Rightarrow> binary_semaphore \<times> nat" where
  "sem_run st ops = foldl sem_step st ops"

definition successful_waits :: "sem_op list \<Rightarrow> nat" where
  "successful_waits ops = snd (sem_run (binary_semaphore_new False, 0) ops)"

definition posts :: "sem_op list \<Rightarrow> nat" where
  "posts ops = length (filter (\<lambda>e. e = Post) ops)"

definition waits :: "sem_op list \<Rightarrow> nat" where
  "waits ops = length (filter (\<lambda>e. e = Wait) ops)"

text \<open>
  ``Every post is delivered before the corresponding wait starts'': the i-th
  \<^verbatim>\<open>wait\<close> of the sequence comes after the i-th \<^verbatim>\<open>post\<close>, for every i up to
  the total number \<open>n\<close> of posts. \<open>p\<close> and \<open>w\<close> count the posts and waits already
  passed.
\<close>

fun posts_precede :: "nat \<Rightarrow> nat \<Rightarrow> nat \<Rightarrow> sem_op list \<Rightarrow> bool" where
  "posts_precede n p w [] = True"
| "posts_precede n p w (Post # ops) = posts_precede n (Suc p) w ops"
| "posts_precede n p w (Wait # ops) =
     ((Suc w \<le> p \<or> n < Suc w) \<and> posts_precede n p (Suc w) ops)"

definition delivered_before :: "sem_op list \<Rightarrow> bool" where
  "delivered_before ops = posts_precede (posts ops) 0 0 ops"

text \<open>No \<^verbatim>\<open>post\<close> of the sequence is issued while the flag is still set.\<close>

fun posts_fresh :: "binary_semaphore \<Rightarrow> sem_op list \<Rightarrow> bool" where
  "posts_fresh s [] = True"
| "posts_fresh s (Post # ops) = (\<not> get_value s \<and> posts_fresh (post s) ops)"
| "posts_fresh s (Wait # ops) =
     posts_fresh (case wait s of Some s' \<Rightarrow> s' | None \<Rightarrow> s) ops"

section \<open>ringbuffer\_base.hpp\<close>

text \<open>\<^verbatim>\<open>std::size_t\<close> is an unsigned 64-bit integer, \<^verbatim>\<open>long\<close> a signed one (LP64).\<close>

type_synonym size_t = "64 word"

definition LONG_MAX :: size_t where
  "LONG_MAX = 9223372036854775807"

text \<open>The conversion of a \<^verbatim>\<open>std::size_t\<close> to the return type \<^verbatim>\<open>long\<close>.\<close>

definition long_of_size :: "size_t \<Rightarrow> int" where
  "long_of_size n = sint n"

datatype ringbuffer_status = OK | INTERNAL_ERROR | WOULD_BLOCK | OPERATION_CANCELLED

text \<open>\<^verbatim>\<open>static_cast<long>(rbs)\<close> on the enumerators' values.\<close>

fun status_long :: "ringbuffer_status \<Rightarrow> int" where
  "status_long OK = 0"
| "status_long INTERNAL_ERROR = - 1"
| "status_long WOULD_BLOCK = - 2"
| "status_long OPERATION_CANCELLED = - 3"

datatype ringbuffer_role = NONE | PRODUCER | CONSUMER

text \<open>The flags are a \<^verbatim>\<open>std::bitset<2>\<close>; \<^verbatim>\<open>m_flags.test(pos)\<close> reads bit \<open>pos\<close>.\<close>

type_synonym flags = "2 word"

definition RINGBUFFER_NONBLOCKING_WRITE_SHIFT :: nat where
  "RINGBUFFER_NONBLOCKING_WRITE_SHIFT = 0"

definition RINGBUFFER_NONBLOCKING_READ_SHIFT :: nat where
  "RINGBUFFER_NONBLOCKING_READ_SHIFT = 1"

definition test :: "flags \<Rightarrow> nat \<Rightarrow> bool" where
  "test f pos = bit f pos"

definition RINGBUFFER_RD_BLOCKING_WR_BLOCKING :: flags where
  "RINGBUFFER_RD_BLOCKING_WR_BLOCKING =
     push_bit RINGBUFFER_NONBLOCKING_READ_SHIFT 0 OR push_bit RINGBUFFER_NONBLOCKING_WRITE_SHIFT 0"

definition RINGBUFFER_RD_BLOCKING_WR_NONBLOCKING :: flags where
  "RINGBUFFER_RD_BLOCKING_WR_NONBLOCKING =
     push_bit RINGBUFFER_NONBLOCKING_READ_SHIFT 0 OR push_bit RINGBUFFER_NONBLOCKING_WRITE_SHIFT 1"

definition RINGBUFFER_RD_NONBLOCKING_WR_BLOCKING :: flags where
  "RINGBUFFER_RD_NONBLOCKING_WR_BLOCKING =
     push_bit RINGBUFFER_NONBLOCKING_READ_SHIFT 1 OR push_bit RINGBUFFER_NONBLOCKING_WRITE_SHIFT 0"

definition RINGBUFFER_RD_NONBLOCKING_WR_NONBLOCKING :: flags where
  "RINGBUFFER_RD_NONBLOCKING_WR_NONBLOCKING =
     push_bit RINGBUFFER_NONBLOCKING_READ_SHIFT 1 OR push_bit RINGBUFFER_NONBLOCKING_WRITE_SHIFT 1"

text \<open>\<^verbatim>\<open>struct counters\<close>: three atomic \<^verbatim>\<open>std::size_t\<close>, read and written one at a time.\<close>

record counters =
  m_produced :: size_t
  m_consumed :: size_t
  m_dropped :: size_t

definition counters_reset :: "counters \<Rightarrow> counters" where
  "counters_reset cs = cs\<lparr>m_produced := 0, m_consumed := 0, m_dropped := 0\<rparr>"

text \<open>
  The members of \<^verbatim>\<open>ringbuffer_base<T>\<close>. \<^verbatim>\<open>m_buffer\<close> points to an array of
  \<^verbatim>\<open>m_capacity\<close> cells, modelled by the list of the cells' contents.
\<close>

record 'a ringbuffer =
  m_capacity :: size_t
  m_flags :: flags
  m_counters :: counters
  m_buffer :: "'a list"
  m_writing_semaphore :: binary_semaphore
  m_reading_semaphore :: binary_semaphore
  m_is_writing_cancelled :: bool
  m_is_reading_cancelled :: bool

text \<open>
  The constructor \<^verbatim>\<open>ringbuffer(capacity, flags)\<close>. Its two assertions abort the
  program when they fail (\<open>None\<close>). \<^verbatim>\<open>new T[capacity]\<close> default-initialises every
  cell; \<open>dflt\<close> is the content of such a cell.
\<close>

definition ringbuffer_new :: "'a \<Rightarrow> size_t \<Rightarrow> flags \<Rightarrow> 'a ringbuffer option" where
  "ringbuffer_new dflt capacity flags =
     (if 0 < capacity \<and> capacity < LONG_MAX then
        Some \<lparr>m_capacity = capacity,
              m_flags = flags,
              m_counters = \<lparr>m_produced = 0, m_consumed = 0, m_dropped = 0\<rparr>,
              m_buffer = replicate (unat capacity) dflt,
              m_writing_semaphore = binary_semaphore_new True,
              m_reading_semaphore = binary_semaphore_new False,
              m_is_writing_cancelled = False,
              m_is_reading_cancelled = False\<rparr>
      else None)"

definition capacity :: "'a ringbuffer \<Rightarrow> size_t" where
  "capacity rb = m_capacity rb"

text \<open>
  \<^verbatim>\<open>get_counters(produced, consumed, dropped)\<close>. An out-pointer is \<open>None\<close> when it
  is null and otherwise \<open>Some\<close> of the content of the cell it points to; the
  function returns the status and the three cells after the call.
\<close>

definition get_counters ::
  "'a ringbuffer \<Rightarrow> size_t option \<Rightarrow> size_t option \<Rightarrow> size_t option \<Rightarrow>
   ringbuffer_status \<times> size_t option \<times> size_t option \<times> size_t option" where
  "get_counters rb produced consumed dropped =
     (let l_produced = m_produced (m_counters rb);
          l_consumed = m_consumed (m_counters rb)
      in if l_produced < l_consumed then (INTERNAL_ERROR, produced, consumed, dropped)
         else if l_produced - l_consumed > m_capacity rb
           then (INTERNAL_ERROR, produced, consumed, dropped)
         else (OK,
               map_option (\<lambda>_. l_produced) produced,
               map_option (\<lambda>_. l_consumed) consumed,
               map_option (\<lambda>_. m_dropped (m_counters rb)) dropped))"

text \<open>The value of a local variable whose address was passed as an out-pointer.\<close>

definition local_value :: "size_t option \<Rightarrow> size_t" where
  "local_value cell = (case cell of Some v \<Rightarrow> v | None \<Rightarrow> 0)"

definition reset :: "ringbuffer_role \<Rightarrow> 'a ringbuffer \<Rightarrow> 'a ringbuffer" where
  "reset role rb =
     (if role = PRODUCER then
        (let consumed = m_consumed (m_counters rb);
             rb = rb\<lparr>m_counters := (m_counters rb)\<lparr>m_produced := consumed\<rparr>\<rparr>;
             rb = rb\<lparr>m_counters := (m_counters rb)\<lparr>m_dropped := 0\<rparr>\<rparr>
         in rb)
      else if role = CONSUMER then
        (let produced = m_produced (m_counters rb);
             rb = rb\<lparr>m_counters := (m_counters rb)\<lparr>m_consumed := produced\<rparr>\<rparr>
         in rb)
      else rb\<lparr>m_counters := counters_reset (m_counters rb)\<rparr>)"

definition cancel :: "ringbuffer_role \<Rightarrow> 'a ringbuffer \<Rightarrow> 'a ringbuffer" where
  "cancel role rb =
     (if role = PRODUCER then
        (if \<not> test (m_flags rb) RINGBUFFER_NONBLOCKING_WRITE_SHIFT then
           (let rb = rb\<lparr>m_is_writing_cancelled := True\<rparr>;
                rb = rb\<lparr>m_writing_semaphore := post (m_writing_semaphore rb)\<rparr>
            in rb)
         else rb)
      else if role = CONSUMER then
        (if \<not> test (m_flags rb) RINGBUFFER_NONBLOCKING_READ_SHIFT then
           (let rb = rb\<lparr>m_is_reading_cancelled := True\<rparr>;
                rb = rb\<lparr>m_reading_semaphore := post (m_reading_semaphore rb)\<rparr>
            in rb)
         else rb)
      else rb)"

subsection \<open>The transfer functions\<close>

text \<open>
  A pointer into an array is the array's content together with an index.
  Dereferencing outside the array is undefined behaviour: the transfer functions
  return \<open>None\<close> there. Otherwise they return their \<^verbatim>\<open>bool\<close> result, the content
  of the destination array and the content of the source array after the call.
\<close>

type_synonym 'a ptr = "'a list \<times> nat"

text \<open>\<^verbatim>\<open>while (count-- > 0) *dst++ = *src++; return true;\<close>\<close>

fun copy :: "'a ptr \<Rightarrow> 'a ptr \<Rightarrow> nat \<Rightarrow> (bool \<times> 'a list \<times> 'a list) option" where
  "copy (dst, di) (src, si) 0 = Some (True, dst, src)"
| "copy (dst, di) (src, si) (Suc count) =
     (if di < length dst \<and> si < length src
      then copy (dst[di := src ! si], Suc di) (src, Suc si) count
      else None)"

text \<open>
  \<^verbatim>\<open>while (count-- > 0) *dst++ = std::move(*src++); return true;\<close> The move
  assignment gives the destination the source's value and leaves the source cell
  in its moved-from state \<open>mf v\<close> (the identity for a trivially copyable type, the
  null handle for an owning pointer).
\<close>

fun move :: "('a \<Rightarrow> 'a) \<Rightarrow> 'a ptr \<Rightarrow> 'a ptr \<Rightarrow> nat \<Rightarrow> (bool \<times> 'a list \<times> 'a list) option" where
  "move mf (dst, di) (src, si) 0 = Some (True, dst, src)"
| "move mf (dst, di) (src, si) (Suc count) =
     (if di < length dst \<and> si < length src
      then move mf (dst[di := src ! si], Suc di) (src[si := mf (src ! si)], Suc si) count
      else None)"

text \<open>
  \<^verbatim>\<open>ringbuffer_functor<T>\<close> wraps a \<^verbatim>\<open>std::function<bool(T*)>\<close>. The callable is a
  function of the state it refers to and of the cell it is handed; it returns
  its \<^verbatim>\<open>bool\<close>, the cell's new content and the new state. The state lives
  outside the functor (it is captured by reference), so that it is the same
  for both calls of \<^verbatim>\<open>xfer\<close> of a split transfer. The functor's
  \<^verbatim>\<open>operator +=\<close> does nothing.
\<close>

type_synonym ('a, 's) callback = "'s \<Rightarrow> 'a \<Rightarrow> bool \<times> 'a \<times> 's"

definition functor_advance :: "('a, 's) callback \<Rightarrow> nat \<Rightarrow> ('a, 's) callback" where
  "functor_advance f count = f"

text \<open>
  \<^verbatim>\<open>xfer_producer\<close>: \<^verbatim>\<open>while (count-- > 0) if (false == (status = src(dst++))) break;\<close>
\<close>

fun xfer_producer ::
  "'a ptr \<Rightarrow> 's \<Rightarrow> ('a, 's) callback \<Rightarrow> nat \<Rightarrow> (bool \<times> 'a list \<times> 's) option" where
  "xfer_producer (dst, di) s src 0 = Some (True, dst, s)"
| "xfer_producer (dst, di) s src (Suc count) =
     (if di < length dst then
        (case src s (dst ! di) of (status, cell, s') \<Rightarrow>
           if \<not> status then Some (False, dst[di := cell], s')
           else xfer_producer (dst[di := cell], Suc di) s' src count)
      else None)"

text \<open>
  \<^verbatim>\<open>xfer_consumer\<close>: \<^verbatim>\<open>while (count-- > 0) if (false == (status = dst(src++))) break;\<close>
\<close>

fun xfer_consumer ::
  "'s \<Rightarrow> ('a, 's) callback \<Rightarrow> 'a ptr \<Rightarrow> nat \<Rightarrow> (bool \<times> 's \<times> 'a list) option" where
  "xfer_consumer s dst (src, si) 0 = Some (True, s, src)"
| "xfer_consumer s dst (src, si) (Suc count) =
     (if si < length src then
        (case dst s (src ! si) of (status, cell, s') \<Rightarrow>
           if \<not> status then Some (False, s', src[si := cell])
           else xfer_consumer s' dst (src[si := cell], Suc si) count)
      else None)"

section \<open>oringbuffer.hpp and iringbuffer.hpp\<close>

text \<open>
  A call of \<^verbatim>\<open>write\<close> or \<^verbatim>\<open>read\<close> executed with no other thread running
  either returns (the ring buffer, the caller's memory and the \<^verbatim>\<open>long\<close> it
  returns), or stays parked inside \<^verbatim>\<open>wait()\<close> (the ring buffer at that moment),
  or has undefined behaviour.
\<close>

datatype ('a, 'm) call = Returned "'a ringbuffer" 'm int | Parked "'a ringbuffer" | Undefined

text \<open>
  The outcome of the part of \<^verbatim>\<open>write\<close> and \<^verbatim>\<open>read\<close> that precedes the transfer:
  go on with the snapshot \<open>produced\<close>, \<open>consumed\<close> and the number of free
  (respectively available) elements, return a status, or stay parked.
\<close>

datatype 'a admission =
    Proceed "'a ringbuffer" size_t size_t size_t
  | Finish "'a ringbuffer" ringbuffer_status
  | Block "'a ringbuffer"

subsection \<open>write\<close>

text \<open>
  Lines 117 to 126 of oringbuffer.hpp: the non-blocking branch. The locals
  \<^verbatim>\<open>produced\<close> and \<^verbatim>\<open>consumed\<close> are uninitialised when their addresses are
  passed to \<^verbatim>\<open>get_counters\<close>; their content (here 0) is read only after the
  call has returned \<^verbatim>\<open>OK\<close> and has overwritten it.
\<close>

definition write_nonblocking :: "'a ringbuffer \<Rightarrow> 'a admission" where
  "write_nonblocking rb =
     (case get_counters rb (Some 0) (Some 0) None of (rbs, produced, consumed, _) \<Rightarrow>
        if rbs \<noteq> OK then Finish rb rbs
        else
          let free_elements = m_capacity rb - (local_value produced - local_value consumed)
          in if 0 = free_elements then
               Finish (rb\<lparr>m_counters := (m_counters rb)\<lparr>m_dropped := m_dropped (m_counters rb) + 1\<rparr>\<rparr>)
                 WOULD_BLOCK
             else Proceed rb (local_value produced) (local_value consumed) free_elements)"

text \<open>
  Lines 128 to 142: the \<^verbatim>\<open>for (;;)\<close> loop of the blocking branch. With
  \<open>at_wait = False\<close> the function starts at the top of the loop body, with
  \<open>at_wait = True\<close> at the call of \<^verbatim>\<open>m_writing_semaphore.wait()\<close>, where a parked
  caller goes on once it is woken.
\<close>

function write_blocking :: "bool \<Rightarrow> 'a ringbuffer \<Rightarrow> 'a admission" where
  "write_blocking at_wait rb =
     (if at_wait then
        (case wait (m_writing_semaphore rb) of
           None \<Rightarrow> Block rb
         | Some sem \<Rightarrow>
             if m_is_writing_cancelled rb then
               Finish (rb\<lparr>m_writing_semaphore := sem, m_is_writing_cancelled := False\<rparr>)
                 OPERATION_CANCELLED
             else write_blocking False (rb\<lparr>m_writing_semaphore := sem\<rparr>))
      else
        (case get_counters rb (Some 0) (Some 0) None of (rbs, produced, consumed, _) \<Rightarrow>
           if rbs \<noteq> OK then Finish rb rbs
           else
             let free_elements = m_capacity rb - (local_value produced - local_value consumed)
             in if free_elements > 0 then
                  Proceed rb (local_value produced) (local_value consumed) free_elements
                else write_blocking True rb))"
  by pat_completeness auto
termination
  by (relation "measure (\<lambda>(at_wait, rb).
        (if m_ready (m_writing_semaphore rb) then 2 else 0) + (if at_wait then 0 else 1))")
     (auto simp: wait_def split: if_splits)

text \<open>
  Lines 162 to 170: the last call of \<^verbatim>\<open>xfer\<close>, the store into \<^verbatim>\<open>m_produced\<close>,
  the post of the reading semaphore and the return.
\<close>

definition write_finish ::
  "('a ptr \<Rightarrow> 'm \<Rightarrow> 'p \<Rightarrow> nat \<Rightarrow> (bool \<times> 'a list \<times> 'm) option) \<Rightarrow>
   'a ringbuffer \<Rightarrow> 'm \<Rightarrow> 'p \<Rightarrow> size_t \<Rightarrow> size_t \<Rightarrow> size_t \<Rightarrow> size_t \<Rightarrow> ('a, 'm) call" where
  "write_finish xfer rb mem data remaining write_idx produced count =
     (case xfer (m_buffer rb, unat write_idx) mem data (unat remaining) of
        None \<Rightarrow> Undefined
      | Some (status, buffer, mem) \<Rightarrow>
          if \<not> status then Returned (rb\<lparr>m_buffer := buffer\<rparr>) mem (status_long INTERNAL_ERROR)
          else
            let rb = rb\<lparr>m_buffer := buffer\<rparr>;
                rb = rb\<lparr>m_counters := (m_counters rb)\<lparr>m_produced := produced + count\<rparr>\<rparr>;
                rb = (if \<not> test (m_flags rb) RINGBUFFER_NONBLOCKING_READ_SHIFT
                      then rb\<lparr>m_reading_semaphore := post (m_reading_semaphore rb)\<rparr>
                      else rb)
            in Returned rb mem (long_of_size count))"

text \<open>
  Lines 145 to 160: the clamp of \<^verbatim>\<open>count\<close>, the write index, the split at the
  end of the array and the first call of \<^verbatim>\<open>xfer\<close>. The remainder by a zero
  capacity is undefined behaviour.
\<close>

definition write_transfer ::
  "('a ptr \<Rightarrow> 'm \<Rightarrow> 'p \<Rightarrow> nat \<Rightarrow> (bool \<times> 'a list \<times> 'm) option) \<Rightarrow> ('p \<Rightarrow> nat \<Rightarrow> 'p) \<Rightarrow>
   'a ringbuffer \<Rightarrow> 'm \<Rightarrow> 'p \<Rightarrow> size_t \<Rightarrow> size_t \<Rightarrow> size_t \<Rightarrow> ('a, 'm) call" where
  "write_transfer xfer advance rb mem data count produced free_elements =
     (let count = (if count > free_elements then free_elements else count)
      in if m_capacity rb = 0 then Undefined
         else
           let write_idx = produced mod m_capacity rb;
               split = (if write_idx + count > m_capacity rb
                        then m_capacity rb - write_idx else 0);
               remaining = count
           in if split > 0 then
                (case xfer (m_buffer rb, unat write_idx) mem data (unat split) of
                   None \<Rightarrow> Undefined
                 | Some (status, buffer, mem) \<Rightarrow>
                     if \<not> status
                     then Returned (rb\<lparr>m_buffer := buffer\<rparr>) mem (status_long INTERNAL_ERROR)
                     else write_finish xfer (rb\<lparr>m_buffer := buffer\<rparr>) mem
                            (advance data (unat split)) (remaining - split) 0 produced count)
              else write_finish xfer rb mem data remaining write_idx produced count)"

text \<open>
  After the admission: return its status, stay parked, or transfer.
\<close>

definition write_admitted ::
  "('a ptr \<Rightarrow> 'm \<Rightarrow> 'p \<Rightarrow> nat \<Rightarrow> (bool \<times> 'a list \<times> 'm) option) \<Rightarrow> ('p \<Rightarrow> nat \<Rightarrow> 'p) \<Rightarrow>
   'm \<Rightarrow> 'p \<Rightarrow> size_t \<Rightarrow> 'a admission \<Rightarrow> ('a, 'm) call" where
  "write_admitted xfer advance mem data count adm =
     (case adm of
        Finish rb rbs \<Rightarrow> Returned rb mem (status_long rbs)
      | Block rb \<Rightarrow> Parked rb
      | Proceed rb produced consumed free_elements \<Rightarrow>
          write_transfer xfer advance rb mem data count produced free_elements)"

text \<open>
  The private template \<^verbatim>\<open>long write(SRC data, std::size_t count, xfer)\<close>
  (\<open>write\<close> is a keyword here, hence the prefix, also for \<^verbatim>\<open>read\<close>).
  \<open>mem\<close> is the caller's memory that \<open>data\<close> refers to (the source array, or the
  state captured by the callback), \<open>advance\<close> is \<^verbatim>\<open>data += split\<close>.
\<close>

definition rb_write ::
  "('a ptr \<Rightarrow> 'm \<Rightarrow> 'p \<Rightarrow> nat \<Rightarrow> (bool \<times> 'a list \<times> 'm) option) \<Rightarrow> ('p \<Rightarrow> nat \<Rightarrow> 'p) \<Rightarrow>
   'a ringbuffer \<Rightarrow> 'm \<Rightarrow> 'p \<Rightarrow> size_t \<Rightarrow> ('a, 'm) call" where
  "rb_write xfer advance rb mem data count =
     (if 0 = count then Returned rb mem 0
      else if test (m_flags rb) RINGBUFFER_NONBLOCKING_WRITE_SHIFT
        then write_admitted xfer advance mem data count (write_nonblocking rb)
        else write_admitted xfer advance mem data count (write_blocking False rb))"

text \<open>
  A writer parked in \<^verbatim>\<open>m_writing_semaphore.wait()\<close> that is woken goes on from
  that call.
\<close>

definition write_resume ::
  "('a ptr \<Rightarrow> 'm \<Rightarrow> 'p \<Rightarrow> nat \<Rightarrow> (bool \<times> 'a list \<times> 'm) option) \<Rightarrow> ('p \<Rightarrow> nat \<Rightarrow> 'p) \<Rightarrow>
   'a ringbuffer \<Rightarrow> 'm \<Rightarrow> 'p \<Rightarrow> size_t \<Rightarrow> ('a, 'm) call" where
  "write_resume xfer advance rb mem data count =
     write_admitted xfer advance mem data count (write_blocking True rb)"

text \<open>
  The public overloads. The source of the array overloads is the caller's array
  \<open>xs\<close> and the index \<open>0\<close> into it, \<^verbatim>\<open>count\<close> is the array's size; \<open>mem\<close> in the
  result is the array after the call.
\<close>

definition ptr_add :: "nat \<Rightarrow> nat \<Rightarrow> nat" where
  "ptr_add data n = data + n"

definition write_copy :: "'a ringbuffer \<Rightarrow> 'a list \<Rightarrow> ('a, 'a list) call" where
  "write_copy rb xs =
     rb_write (\<lambda>dst mem data. copy dst (mem, data)) ptr_add rb xs 0 (of_nat (length xs))"

definition write_move :: "('a \<Rightarrow> 'a) \<Rightarrow> 'a ringbuffer \<Rightarrow> 'a list \<Rightarrow> ('a, 'a list) call" where
  "write_move mf rb xs =
     rb_write (\<lambda>dst mem data. move mf dst (mem, data)) ptr_add rb xs 0 (of_nat (length xs))"

definition write_via ::
  "'a ringbuffer \<Rightarrow> ('a, 's) callback \<Rightarrow> 's \<Rightarrow> size_t \<Rightarrow> ('a, 's) call" where
  "write_via rb producer s count =
     rb_write (\<lambda>dst mem data. xfer_producer dst mem data) functor_advance rb s producer count"

subsection \<open>read\<close>

text \<open>Lines 117 to 125 of iringbuffer.hpp: the non-blocking branch.\<close>

definition read_nonblocking :: "'a ringbuffer \<Rightarrow> 'a admission" where
  "read_nonblocking rb =
     (case get_counters rb (Some 0) (Some 0) None of (rbs, produced, consumed, _) \<Rightarrow>
        if rbs \<noteq> OK then Finish rb rbs
        else
          let available_elements = local_value produced - local_value consumed
          in if 0 = available_elements then Finish rb WOULD_BLOCK
             else Proceed rb (local_value produced) (local_value consumed) available_elements)"

text \<open>
  Lines 127 to 141: the \<^verbatim>\<open>for (;;)\<close> loop of the blocking branch, entered at
  the top (\<open>at_wait = False\<close>) or at \<^verbatim>\<open>m_reading_semaphore.wait()\<close>.
\<close>

function read_blocking :: "bool \<Rightarrow> 'a ringbuffer \<Rightarrow> 'a admission" where
  "read_blocking at_wait rb =
     (if at_wait then
        (case wait (m_reading_semaphore rb) of
           None \<Rightarrow> Block rb
         | Some sem \<Rightarrow>
             if m_is_reading_cancelled rb then
               Finish (rb\<lparr>m_reading_semaphore := sem, m_is_reading_cancelled := False\<rparr>)
                 OPERATION_CANCELLED
             else read_blocking False (rb\<lparr>m_reading_semaphore := sem\<rparr>))
      else
        (case get_counters rb (Some 0) (Some 0) None of (rbs, produced, consumed, _) \<Rightarrow>
           if rbs \<noteq> OK then Finish rb rbs
           else
             let available_elements = local_value produced - local_value consumed
             in if available_elements > 0 then
                  Proceed rb (local_value produced) (local_value consumed) available_elements
                else read_blocking True rb))"
  by pat_completeness auto
termination
  by (relation "measure (\<lambda>(at_wait, rb).
        (if m_ready (m_reading_semaphore rb) then 2 else 0) + (if at_wait then 0 else 1))")
     (auto simp: wait_def split: if_splits)

text \<open>
  Lines 161 to 169: the last call of \<^verbatim>\<open>xfer\<close>, the store into \<^verbatim>\<open>m_consumed\<close>,
  the post of the writing semaphore and the return.
\<close>

definition read_finish ::
  "('m \<Rightarrow> 'p \<Rightarrow> 'a ptr \<Rightarrow> nat \<Rightarrow> (bool \<times> 'm \<times> 'a list) option) \<Rightarrow>
   'a ringbuffer \<Rightarrow> 'm \<Rightarrow> 'p \<Rightarrow> size_t \<Rightarrow> size_t \<Rightarrow> size_t \<Rightarrow> size_t \<Rightarrow> ('a, 'm) call" where
  "read_finish xfer rb mem data remaining read_idx consumed count =
     (case xfer mem data (m_buffer rb, unat read_idx) (unat remaining) of
        None \<Rightarrow> Undefined
      | Some (status, mem, buffer) \<Rightarrow>
          if \<not> status then Returned (rb\<lparr>m_buffer := buffer\<rparr>) mem (status_long INTERNAL_ERROR)
          else
            let rb = rb\<lparr>m_buffer := buffer\<rparr>;
                rb = rb\<lparr>m_counters := (m_counters rb)\<lparr>m_consumed := consumed + count\<rparr>\<rparr>;
                rb = (if \<not> test (m_flags rb) RINGBUFFER_NONBLOCKING_WRITE_SHIFT
                      then rb\<lparr>m_writing_semaphore := post (m_writing_semaphore rb)\<rparr>
                      else rb)
            in Returned rb mem (long_of_size count))"

text \<open>
  Lines 144 to 159: the clamp of \<^verbatim>\<open>count\<close>, the read index, the split at the
  end of the array and the first call of \<^verbatim>\<open>xfer\<close>.
\<close>

definition read_transfer ::
  "('m \<Rightarrow> 'p \<Rightarrow> 'a ptr \<Rightarrow> nat \<Rightarrow> (bool \<times> 'm \<times> 'a list) option) \<Rightarrow> ('p \<Rightarrow> nat \<Rightarrow> 'p) \<Rightarrow>
   'a ringbuffer \<Rightarrow> 'm \<Rightarrow> 'p \<Rightarrow> size_t \<Rightarrow> size_t \<Rightarrow> size_t \<Rightarrow> ('a, 'm) call" where
  "read_transfer xfer advance rb mem data count consumed available_elements =
     (let count = (if count > available_elements then available_elements else count)
      in if m_capacity rb = 0 then Undefined
         else
           let read_idx = consumed mod m_capacity rb;
               split = (if read_idx + count > m_capacity rb
                        then m_capacity rb - read_idx else 0);
               remaining = count
           in if split > 0 then
                (case xfer mem data (m_buffer rb, unat read_idx) (unat split) of
                   None \<Rightarrow> Undefined
                 | Some (status, mem, buffer) \<Rightarrow>
                     if \<not> status
                     then Returned (rb\<lparr>m_buffer := buffer\<rparr>) mem (status_long INTERNAL_ERROR)
                     else read_finish xfer (rb\<lparr>m_buffer := buffer\<rparr>) mem
                            (advance data (unat split)) (remaining - split) 0 consumed count)
              else read_finish xfer rb mem data remaining read_idx consumed count)"

definition read_admitted ::
  "('m \<Rightarrow> 'p \<Rightarrow> 'a ptr \<Rightarrow> nat \<Rightarrow> (bool \<times> 'm \<times> 'a list) option) \<Rightarrow> ('p \<Rightarrow> nat \<Rightarrow> 'p) \<Rightarrow>
   'm \<Rightarrow> 'p \<Rightarrow> size_t \<Rightarrow> 'a admission \<Rightarrow> ('a, 'm) call" where
  "read_admitted xfer advance mem data count adm =
     (case adm of
        Finish rb rbs \<Rightarrow> Returned rb mem (status_long rbs)
      | Block rb \<Rightarrow> Parked rb
      | Proceed rb produced consumed available_elements \<Rightarrow>
          read_transfer xfer advance rb mem data count consumed available_elements)"

text \<open>
  The private template \<^verbatim>\<open>long read(DST data, std::size_t count, xfer)\<close>.
\<close>

definition rb_read ::
  "('m \<Rightarrow> 'p \<Rightarrow> 'a ptr \<Rightarrow> nat \<Rightarrow> (bool \<times> 'm \<times> 'a list) option) \<Rightarrow> ('p \<Rightarrow> nat \<Rightarrow> 'p) \<Rightarrow>
   'a ringbuffer \<Rightarrow> 'm \<Rightarrow> 'p \<Rightarrow> size_t \<Rightarrow> ('a, 'm) call" where
  "rb_read xfer advance rb mem data count =
     (if 0 = count then Returned rb mem 0
      else if test (m_flags rb) RINGBUFFER_NONBLOCKING_READ_SHIFT
        then read_admitted xfer advance mem data count (read_nonblocking rb)
        else read_admitted xfer advance mem data count (read_blocking False rb))"

text \<open>
  A reader parked in \<^verbatim>\<open>m_reading_semaphore.wait()\<close> that is woken goes on from
  that call.
\<close>

definition read_resume ::
  "('m \<Rightarrow> 'p \<Rightarrow> 'a ptr \<Rightarrow> nat \<Rightarrow> (bool \<times> 'm \<times> 'a list) option) \<Rightarrow> ('p \<Rightarrow> nat \<Rightarrow> 'p) \<Rightarrow>
   'a ringbuffer \<Rightarrow> 'm \<Rightarrow> 'p \<Rightarrow> size_t \<Rightarrow> ('a, 'm) call" where
  "read_resume xfer advance rb mem data count =
     read_admitted xfer advance mem data count (read_blocking True rb)"

text \<open>
  The public overloads. The destination of the array overloads is the caller's
  array \<open>ys\<close> and the index \<open>0\<close> into it, \<^verbatim>\<open>count\<close> is the array's size; \<open>mem\<close>
  in the result is the array after the call.
\<close>

definition read_copy :: "'a ringbuffer \<Rightarrow> 'a list \<Rightarrow> ('a, 'a list) call" where
  "read_copy rb ys =
     rb_read (\<lambda>mem data src. copy (mem, data) src) ptr_add rb ys 0 (of_nat (length ys))"

definition read_move :: "('a \<Rightarrow> 'a) \<Rightarrow> 'a ringbuffer \<Rightarrow> 'a list \<Rightarrow> ('a, 'a list) call" where
  "read_move mf rb ys =
     rb_read (\<lambda>mem data src. move mf (mem, data) src) ptr_add rb ys 0 (of_nat (length ys))"

definition read_via ::
  "'a ringbuffer \<Rightarrow> ('a, 's) callback \<Rightarrow> 's \<Rightarrow> size_t \<Rightarrow> ('a, 's) call" where
  "read_via rb consumer s count =
     rb_read (\<lambda>mem data src. xfer_consumer mem data src) functor_advance rb s consumer count"

section \<open>Notions used in the statements\<close>

text \<open>
  What the constructor establishes and no member function changes: the capacity
  is positive and below \<^verbatim>\<open>LONG_MAX\<close>, and \<^verbatim>\<open>m_buffer\<close> has \<^verbatim>\<open>m_capacity\<close> cells.
\<close>

definition wf :: "'a ringbuffer \<Rightarrow> bool" where
  "wf rb \<longleftrightarrow> 0 < m_capacity rb \<and> m_capacity rb < LONG_MAX \<and>
     length (m_buffer rb) = unat (m_capacity rb)"

text \<open>
  The two invariants that \<^verbatim>\<open>get_counters\<close> validates:
  \<^verbatim>\<open>produced >= consumed\<close> and \<^verbatim>\<open>produced - consumed <= capacity\<close>.
\<close>

definition counters_ok :: "'a ringbuffer \<Rightarrow> bool" where
  "counters_ok rb \<longleftrightarrow>
     m_consumed (m_counters rb) \<le> m_produced (m_counters rb) \<and>
     m_produced (m_counters rb) - m_consumed (m_counters rb) \<le> m_capacity rb"

text \<open>
  The elements written and not yet read, oldest first: element number \<open>k\<close>
  (counted by the 64-bit counters) lies in cell \<open>k mod capacity\<close>, and the
  elements \<open>consumed, \<dots>, produced - 1\<close> are the pending ones.
\<close>

definition pending :: "'a ringbuffer \<Rightarrow> 'a list" where
  "pending rb =
     map (\<lambda>i. m_buffer rb ! ((unat (m_consumed (m_counters rb)) + i) mod unat (m_capacity rb)))
       [0..<unat (m_produced (m_counters rb) - m_consumed (m_counters rb))]"

subsection \<open>Sequences of calls by one thread at a time\<close>

text \<open>
  The array overloads of \<^verbatim>\<open>write\<close> and \<^verbatim>\<open>read\<close>, each with the caller's array
  (for a read: the destination array as it is before the call). An lvalue
  argument selects the copying overload, an rvalue the moving one.
\<close>

datatype 'a rb_call =
    Write_copy "'a list" | Write_move "'a list" | Read_copy "'a list" | Read_move "'a list"

fun perform :: "('a \<Rightarrow> 'a) \<Rightarrow> 'a ringbuffer \<Rightarrow> 'a rb_call \<Rightarrow> ('a, 'a list) call" where
  "perform mf rb (Write_copy xs) = write_copy rb xs"
| "perform mf rb (Write_move xs) = write_move mf rb xs"
| "perform mf rb (Read_copy ys) = read_copy rb ys"
| "perform mf rb (Read_move ys) = read_move mf rb ys"

text \<open>
  The elements a call has transferred when it returned \<open>r\<close>: a write the first
  \<open>r\<close> elements of its source array, a read the first \<open>r\<close> elements of its
  destination array \<open>mem\<close> after the call. A negative \<open>r\<close> is a status: nothing.
\<close>

fun written_by :: "'a rb_call \<Rightarrow> int \<Rightarrow> 'a list" where
  "written_by (Write_copy xs) r = take (nat r) xs"
| "written_by (Write_move xs) r = take (nat r) xs"
| "written_by (Read_copy ys) r = []"
| "written_by (Read_move ys) r = []"

fun delivered_by :: "'a rb_call \<Rightarrow> 'a list \<Rightarrow> int \<Rightarrow> 'a list" where
  "delivered_by (Write_copy xs) mem r = []"
| "delivered_by (Write_move xs) mem r = []"
| "delivered_by (Read_copy ys) mem r = take (nat r) mem"
| "delivered_by (Read_move ys) mem r = take (nat r) mem"

text \<open>
  The calls are executed one after the other; the state is the ring buffer, the
  concatenation of what the writes have transferred and the concatenation of
  what the reads have delivered. The execution ends at a call that does not
  return.
\<close>

fun run ::
  "('a \<Rightarrow> 'a) \<Rightarrow> 'a ringbuffer \<times> 'a list \<times> 'a list \<Rightarrow> 'a rb_call list \<Rightarrow>
   'a ringbuffer \<times> 'a list \<times> 'a list" where
  "run mf st [] = st"
| "run mf (rb, w, d) (c # calls) =
     (case perform mf rb c of
        Returned rb' mem r \<Rightarrow> run mf (rb', w @ written_by c r, d @ delivered_by c mem r) calls
      | Parked rb' \<Rightarrow> (rb', w, d)
      | Undefined \<Rightarrow> (rb, w, d))"

subsection \<open>Callbacks that record a failure\<close>

text \<open>
  \<open>traced f\<close> behaves as the callback \<open>f\<close> and remembers, in a flag added to the
  captured state, whether some call of \<open>f\<close> has returned false.
\<close>

definition traced :: "('a, 's) callback \<Rightarrow> ('a, 's \<times> bool) callback" where
  "traced f = (\<lambda>(s, failed) cell.
     case f s cell of (status, cell', s') \<Rightarrow> (status, cell', (s', failed \<or> \<not> status)))"

subsection \<open>Closed forms of the transfers\<close>

text \<open>
  \<open>blit dst di src si n\<close> is the array \<open>dst\<close> after cells \<open>di, \<dots>, di + n - 1\<close>
  have received \<open>src\<close>'s cells \<open>si, \<dots>, si + n - 1\<close>; \<open>moved_from mf src si n\<close> is
  the array \<open>src\<close> after these cells have been moved from.
\<close>

definition blit :: "'a list \<Rightarrow> nat \<Rightarrow> 'a list \<Rightarrow> nat \<Rightarrow> nat \<Rightarrow> 'a list" where
  "blit dst di src si n = take di dst @ take n (drop si src) @ drop (di + n) dst"

definition moved_from :: "('a \<Rightarrow> 'a) \<Rightarrow> 'a list \<Rightarrow> nat \<Rightarrow> nat \<Rightarrow> 'a list" where
  "moved_from mf src si n = take si src @ map mf (take n (drop si src)) @ drop (si + n) src"

text \<open>
  The ring buffer's array after \<open>k\<close> elements of \<open>xs\<close> have been stored from
  cell \<open>widx\<close> on, wrapping at the end of the array.
\<close>

definition ring_blit :: "'a list \<Rightarrow> nat \<Rightarrow> 'a list \<Rightarrow> nat \<Rightarrow> 'a list" where
  "ring_blit buf widx xs k =
     (if widx + k > length buf
      then blit (blit buf widx xs 0 (length buf - widx)) 0 xs (length buf - widx)
             (k - (length buf - widx))
      else blit buf widx xs 0 k)"

text \<open>
  The caller's array \<open>ys\<close> after \<open>k\<close> elements have been fetched from cell
  \<open>ridx\<close> on, and the ring buffer's array after they have been moved from.
\<close>

definition ring_read :: "'a list \<Rightarrow> nat \<Rightarrow> 'a list \<Rightarrow> nat \<Rightarrow> 'a list" where
  "ring_read buf ridx ys k =
     (if ridx + k > length buf
      then blit (blit ys 0 buf ridx (length buf - ridx)) (length buf - ridx) buf 0
             (k - (length buf - ridx))
      else blit ys 0 buf ridx k)"

definition ring_moved :: "('a \<Rightarrow> 'a) \<Rightarrow> 'a list \<Rightarrow> nat \<Rightarrow> nat \<Rightarrow> 'a list" where
  "ring_moved mf buf ridx k =
     (if ridx + k > length buf
      then moved_from mf (moved_from mf buf ridx (length buf - ridx)) 0 (k - (length buf - ridx))
      else moved_from mf buf ridx k)"

subsection \<open>Example ring buffers\<close>

text \<open>
  A ring buffer whose counters violate \<^verbatim>\<open>produced >= consumed\<close>, as after
  \<^verbatim>\<open>m_produced\<close> has wrapped around.
\<close>

definition broken :: "int ringbuffer" where
  "broken = \<lparr>m_capacity = 4, m_flags = RINGBUFFER_RD_NONBLOCKING_WR_NONBLOCKING,
     m_counters = \<lparr>m_produced = 0, m_consumed = 1, m_dropped = 0\<rparr>,
     m_buffer = [0, 0, 0, 0],
     m_writing_semaphore = binary_semaphore_new True,
     m_reading_semaphore = binary_semaphore_new False,
     m_is_writing_cancelled = False, m_is_reading_cancelled = False\<rparr>"

text \<open>
  A ring buffer as \<^verbatim>\<open>ringbuffer<int>(4, RINGBUFFER_RD_NONBLOCKING_WR_NONBLOCKING)\<close>
  constructs it, and the same ring buffer holding the three elements 1, 2, 3.
\<close>

definition fresh4 :: "int ringbuffer" where
  "fresh4 = \<lparr>m_capacity = 4, m_flags = RINGBUFFER_RD_NONBLOCKING_WR_NONBLOCKING,
     m_counters = \<lparr>m_produced = 0, m_consumed = 0, m_dropped = 0\<rparr>,
     m_buffer = [0, 0, 0, 0],
     m_writing_semaphore = binary_semaphore_new True,
     m_reading_semaphore = binary_semaphore_new False,
     m_is_writing_cancelled = False, m_is_reading_cancelled = False\<rparr>"

definition loaded4 :: "int ringbuffer" where
  "loaded4 = fresh4\<lparr>m_counters := \<lparr>m_produced = 3, m_consumed = 0, m_dropped = 0\<rparr>,
     m_buffer := [1, 2, 3, 0]\<rparr>"

text \<open>
  A callback that counts its calls in the state it has captured, stores the
  count into the cell it is handed and returns false at its second call.
\<close>

definition second_call_fails :: "(int, nat) callback" where
  "second_call_fails = (\<lambda>s cell. (s \<noteq> 1, int s, Suc s))"

text \<open>The same ring buffer holding the four elements 1, 2, 3, 4: no free cell.\<close>

definition full4 :: "int ringbuffer" where
  "full4 = fresh4\<lparr>m_counters := \<lparr>m_produced = 4, m_consumed = 0, m_dropped = 0\<rparr>,
     m_buffer := [1, 2, 3, 4]\<rparr>"

text \<open>
  A ring buffer as the pipeline constructs its queues:
  \<^verbatim>\<open>ringbuffer<int>(4, RINGBUFFER_RD_BLOCKING_WR_NONBLOCKING)\<close>.
\<close>

definition queue4 :: "int ringbuffer" where
  "queue4 = fresh4\<lparr>m_flags := RINGBUFFER_RD_BLOCKING_WR_NONBLOCKING\<rparr>"

subsection \<open>The calls of a callback, one after the other\<close>

text \<open>
  \<open>callback_run f s cells\<close> hands the cells to the callback \<open>f\<close> in order,
  starting in state \<open>s\<close>, and stops after the first call that returns false. It
  yields whether every call has returned true, the cells afterwards (those not
  reached are as before) and the final state.
\<close>

fun callback_run :: "('a, 's) callback \<Rightarrow> 's \<Rightarrow> 'a list \<Rightarrow> bool \<times> 'a list \<times> 's" where
  "callback_run f s [] = (True, [], s)"
| "callback_run f s (c # cs) =
     (case f s c of (status, c', s') \<Rightarrow>
        if \<not> status then (False, c' # cs, s')
        else (case callback_run f s' cs of (st, cs', s'') \<Rightarrow> (st, c' # cs', s'')))"

text \<open>
  The content of the \<open>k\<close> cells of the ring buffer's array from cell \<open>idx\<close> on,
  wrapping at the end of the array.
\<close>

definition ring_cells :: "'a list \<Rightarrow> nat \<Rightarrow> nat \<Rightarrow> 'a list" where
  "ring_cells buf idx k =
     (if idx + k > length buf
      then drop idx buf @ take (k - (length buf - idx)) buf
      else take k (drop idx buf))"

section \<open>The transfer functions in closed form\<close>

lemma blit_0 [simp]: "blit dst di src si 0 = dst"
  by (simp add: blit_def)

lemma moved_from_0 [simp]: "moved_from mf src si 0 = src"
  by (simp add: moved_from_def)

lemma length_blit [simp]:
  "di + n \<le> length dst \<Longrightarrow> si + n \<le> length src \<Longrightarrow> length (blit dst di src si n) = length dst"
  by (simp add: blit_def)

lemma length_moved_from [simp]:
  "si + n \<le> length src \<Longrightarrow> length (moved_from mf src si n) = length src"
  by (simp add: moved_from_def)

lemma nth_blit:
  "di + n \<le> length dst \<Longrightarrow> si + n \<le> length src \<Longrightarrow> j < length dst \<Longrightarrow>
   blit dst di src si n ! j = (if di \<le> j \<and> j < di + n then src ! (si + (j - di)) else dst ! j)"
  by (auto simp: blit_def nth_append)

lemma nth_moved_from:
  "si + n \<le> length src \<Longrightarrow> j < length src \<Longrightarrow>
   moved_from mf src si n ! j = (if si \<le> j \<and> j < si + n then mf (src ! j) else src ! j)"
  by (auto simp: moved_from_def nth_append)

lemma blit_Suc:
  assumes "Suc (di + n) \<le> length dst" "Suc (si + n) \<le> length src"
  shows "blit (dst[di := src ! si]) (Suc di) src (Suc si) n = blit dst di src si (Suc n)"
  using assms
  by (intro nth_equalityI)
     (auto simp: nth_blit nth_list_update intro!: arg_cong [where f = "(!) src"])

lemma blit_Suc_moved:
  assumes "Suc (di + n) \<le> length dst" "Suc (si + n) \<le> length src"
  shows "blit (dst[di := src ! si]) (Suc di) (src[si := v]) (Suc si) n = blit dst di src si (Suc n)"
  using assms
  by (intro nth_equalityI)
     (auto simp: nth_blit nth_list_update intro!: arg_cong [where f = "(!) src"])

lemma moved_from_Suc:
  assumes "Suc (si + n) \<le> length src"
  shows "moved_from mf (src[si := mf (src ! si)]) (Suc si) n = moved_from mf src si (Suc n)"
  using assms by (intro nth_equalityI) (auto simp: nth_moved_from nth_list_update)

lemma copy_blit:
  "di + n \<le> length dst \<Longrightarrow> si + n \<le> length src \<Longrightarrow>
   copy (dst, di) (src, si) n = Some (True, blit dst di src si n, src)"
proof (induction n arbitrary: dst di si)
  case 0
  then show ?case by simp
next
  case (Suc n)
  then show ?case by (simp add: blit_Suc)
qed

lemma move_blit:
  "di + n \<le> length dst \<Longrightarrow> si + n \<le> length src \<Longrightarrow>
   move mf (dst, di) (src, si) n = Some (True, blit dst di src si n, moved_from mf src si n)"
proof (induction n arbitrary: dst di src si)
  case 0
  then show ?case by simp
next
  case (Suc n)
  then show ?case by (simp add: blit_Suc_moved moved_from_Suc)
qed

lemma moved_from_twice:
  "a + b \<le> length xs \<Longrightarrow> moved_from mf (moved_from mf xs 0 a) a b = moved_from mf xs 0 (a + b)"
  by (intro nth_equalityI) (auto simp: nth_moved_from)

lemma blit_moved_from:
  "a + n \<le> length xs \<Longrightarrow> di + n \<le> length dst \<Longrightarrow>
   blit dst di (moved_from mf xs 0 a) a n = blit dst di xs a n"
  by (intro nth_equalityI) (auto simp: nth_blit nth_moved_from)

lemma long_of_size_small:
  assumes "n < LONG_MAX"
  shows "long_of_size n = int (unat n)"
proof -
  have "uint n < uint LONG_MAX" using assms by (simp only: word_less_def)
  also have "uint LONG_MAX = 9223372036854775807" by (simp add: LONG_MAX_def)
  finally have "uint n < 9223372036854775808" by simp
  moreover have "- 9223372036854775808 \<le> uint n"
    by (rule order_trans [OF _ uint_ge_0]) simp
  ultimately have "signed_take_bit (63::nat) (uint n) = uint n"
    by (intro signed_take_bit_int_eq_self) simp_all
  then show ?thesis
    by (simp add: long_of_size_def sint_uint)
qed

lemma wf_facts:
  assumes "wf rb"
  shows "0 < unat (m_capacity rb)" "unat (m_capacity rb) < 9223372036854775807"
    "length (m_buffer rb) = unat (m_capacity rb)" "m_capacity rb \<noteq> 0"
  using assms by (auto simp: wf_def word_less_nat_alt LONG_MAX_def)

lemma free_facts:
  fixes cap :: size_t
  assumes "c \<le> p" "p - c \<le> cap"
  shows "unat (p - c) = unat p - unat c" "unat (cap - (p - c)) = unat cap - (unat p - unat c)"
    "unat c \<le> unat p" "unat p - unat c \<le> unat cap"
  using assms by (simp_all add: unat_sub word_le_nat_alt)

lemma clamp_facts:
  fixes count :: size_t
  assumes "k = min (unat count) (unat n)" "count' = (if count > n then n else count)"
  shows "unat count' = k" "count' = of_nat k"
  using assms by (auto simp: word_less_nat_alt min_def)

lemma index_facts:
  fixes p :: size_t
  assumes "widx = unat p mod C" "C = unat cap" "0 < C" "C < 9223372036854775807"
    "unat count' = k" "k \<le> C"
  shows "unat (p mod cap) = widx" "widx < C" "unat (p mod cap + count') = widx + k"
     "(p mod cap + count' > cap) = (widx + k > C)" "unat (cap - p mod cap) = C - widx"
     "C < widx + k \<Longrightarrow> unat (count' - (cap - p mod cap)) = k - (C - widx)"
proof -
  show widx: "unat (p mod cap) = widx" "widx < C"
    using assms by (simp_all add: unat_mod)
  have "widx + k < 2 ^ LENGTH(64)"
    using widx(2) assms(4,6) by simp
  then show sum: "unat (p mod cap + count') = widx + k"
    using widx(1) assms(5) by (simp only: unat_add_lem [THEN iffD1])
  show cond: "(p mod cap + count' > cap) = (widx + k > C)"
    using sum assms by (simp add: word_less_nat_alt)
  show split: "unat (cap - p mod cap) = C - widx"
    using widx assms by (subst unat_sub) (simp_all add: word_le_nat_alt)
  show "C < widx + k \<Longrightarrow> unat (count' - (cap - p mod cap)) = k - (C - widx)"
    using split assms by (subst unat_sub) (simp_all add: word_le_nat_alt)
qed

lemma write_transfer_move:
  fixes rb :: "'a ringbuffer"
  assumes wf: "wf rb"
    and cp: "c \<le> p" and fill: "p - c \<le> m_capacity rb"
    and free: "free = m_capacity rb - (p - c)" "free \<noteq> 0"
    and src: "unat count \<le> length xs"
  defines "k \<equiv> min (unat count) (unat free)"
  shows "write_transfer (\<lambda>dst mem data. move mf dst (mem, data)) ptr_add rb xs 0 count p free =
    Returned
      (rb\<lparr>m_buffer := ring_blit (m_buffer rb) (unat p mod unat (m_capacity rb)) xs k,
          m_counters := (m_counters rb)\<lparr>m_produced := p + of_nat k\<rparr>,
          m_reading_semaphore :=
            (if test (m_flags rb) RINGBUFFER_NONBLOCKING_READ_SHIFT then m_reading_semaphore rb
             else post (m_reading_semaphore rb))\<rparr>)
      (moved_from mf xs 0 k) (int k)"
proof -
  define cap where "cap = m_capacity rb"
  define C where "C = unat cap"
  define count' where "count' = (if count > free then free else count)"
  define widx where "widx = unat p mod C"
  note C = wf_facts [OF wf, folded cap_def C_def]
  have free_le: "unat free \<le> C"
    using free_facts [OF cp fill] free by (simp add: C_def cap_def)
  note k1 = clamp_facts [OF k_def [THEN meta_eq_to_obj_eq] count'_def]
  have k2: "k \<le> C" "k \<le> length xs"
    using free_le src by (simp_all add: k_def)
  note ix = index_facts [OF widx_def C_def C(1,2) k1(1) k2(1)]
  have "count' \<le> cap" using k1(1) k2(1) by (simp add: word_le_nat_alt C_def)
  then have "count' < LONG_MAX" using wf by (auto simp: wf_def cap_def elim: order_le_less_trans)
  then have long: "long_of_size count' = int k"
    using k1(1) by (simp add: long_of_size_small)
  show ?thesis
  proof (cases "C < widx + k")
    case True
    then have pos: "cap - p mod cap > 0" using ix(5) ix(2)
      by (simp add: word_less_nat_alt)
    show ?thesis
      using True C k1 k2 ix long pos
      unfolding write_transfer_def write_finish_def cap_def [symmetric] count'_def [symmetric] Let_def
      by (simp add: move_blit ring_blit_def C_def [symmetric] widx_def [symmetric]
            moved_from_twice ptr_add_def blit_moved_from)
  next
    case False
    show ?thesis
      using False C k1 k2 ix long
      unfolding write_transfer_def write_finish_def cap_def [symmetric] count'_def [symmetric] Let_def
      by (simp add: move_blit ring_blit_def C_def [symmetric] widx_def [symmetric])
  qed
qed

lemma copy_eq_move: "copy (dst, di) (src, si) n = move (\<lambda>x. x) (dst, di) (src, si) n"
  by (induction n arbitrary: dst di si) simp_all

lemma moved_from_id [simp]: "si + n \<le> length xs \<Longrightarrow> moved_from (\<lambda>x. x) xs si n = xs"
  by (intro nth_equalityI) (auto simp: nth_moved_from)

lemma mod_wrap:
  fixes a :: nat
  assumes "a < C" "i \<le> C"
  shows "(a + i) mod C = (if a + i < C then a + i else a + i - C)"
  using assms by (simp add: mod_if)

lemma mod_distinct:
  fixes a :: nat
  assumes "0 < d" "d < C"
  shows "(a + d) mod C \<noteq> a mod C"
proof
  assume "(a + d) mod C = a mod C"
  then have "C dvd (a + d) - a"
    by (metis mod_eq_dvd_iff_nat le_add1)
  then have "C dvd d" by simp
  then show False using assms by (auto dest: dvd_imp_le)
qed

lemma length_ring_blit:
  assumes "widx < length buf" "k \<le> length buf" "k \<le> length xs"
  shows "length (ring_blit buf widx xs k) = length buf"
  using assms by (simp add: ring_blit_def)

lemma ring_blit_written:
  assumes "widx < length buf" "k \<le> length buf" "k \<le> length xs" "i < k"
  shows "ring_blit buf widx xs k ! ((widx + i) mod length buf) = xs ! i"
  using assms by (auto simp: ring_blit_def nth_blit mod_wrap intro!: arg_cong [where f = "(!) xs"])

lemma ring_blit_other:
  assumes "widx < length buf" "k \<le> length buf" "k \<le> length xs" "j < length buf"
    "\<forall>i<k. (widx + i) mod length buf \<noteq> j"
  shows "ring_blit buf widx xs k ! j = buf ! j"
proof -
  have "\<not> (widx \<le> j \<and> j < widx + k)"
  proof
    assume a: "widx \<le> j \<and> j < widx + k"
    then have "(widx + (j - widx)) mod length buf = j" using assms by simp
    with a assms(5) show False by (metis add_diff_inverse_nat less_diff_conv2 add.commute not_less)
  qed
  moreover have "\<not> (length buf < widx + k \<and> j < k - (length buf - widx))"
  proof
    assume a: "length buf < widx + k \<and> j < k - (length buf - widx)"
    then have "(widx + (j + (length buf - widx))) mod length buf = j" using assms by simp
    moreover have "j + (length buf - widx) < k" using a by linarith
    ultimately show False using assms(5) by blast
  qed
  ultimately show ?thesis
    using assms by (auto simp: ring_blit_def nth_blit)
qed

lemma blit_from_moved:
  "a + n \<le> length buf \<Longrightarrow> m \<le> a \<Longrightarrow> di + m \<le> length dst \<Longrightarrow>
   blit dst di (moved_from mf buf a n) 0 m = blit dst di buf 0 m"
  by (intro nth_equalityI) (auto simp: nth_blit nth_moved_from)

lemma read_transfer_move:
  fixes rb :: "'a ringbuffer"
  assumes wf: "wf rb"
    and cp: "c \<le> p" and fill: "p - c \<le> m_capacity rb"
    and avail: "avail = p - c" "avail \<noteq> 0"
    and dst: "unat count \<le> length ys"
  defines "k \<equiv> min (unat count) (unat avail)"
  shows "read_transfer (\<lambda>mem data src. move mf (mem, data) src) ptr_add rb ys 0 count c avail =
    Returned
      (rb\<lparr>m_buffer := ring_moved mf (m_buffer rb) (unat c mod unat (m_capacity rb)) k,
          m_counters := (m_counters rb)\<lparr>m_consumed := c + of_nat k\<rparr>,
          m_writing_semaphore :=
            (if test (m_flags rb) RINGBUFFER_NONBLOCKING_WRITE_SHIFT then m_writing_semaphore rb
             else post (m_writing_semaphore rb))\<rparr>)
      (ring_read (m_buffer rb) (unat c mod unat (m_capacity rb)) ys k) (int k)"
proof -
  define cap where "cap = m_capacity rb"
  define C where "C = unat cap"
  define count' where "count' = (if count > avail then avail else count)"
  define ridx where "ridx = unat c mod C"
  note C = wf_facts [OF wf, folded cap_def C_def]
  have avail_le: "unat avail \<le> C"
    using fill avail by (simp add: C_def cap_def word_le_nat_alt)
  note k1 = clamp_facts [OF k_def [THEN meta_eq_to_obj_eq] count'_def]
  have k2: "k \<le> C" "k \<le> length ys"
    using avail_le dst by (simp_all add: k_def)
  note ix = index_facts [OF ridx_def C_def C(1,2) k1(1) k2(1)]
  have "count' \<le> cap" using k1(1) k2(1) by (simp add: word_le_nat_alt C_def)
  then have "count' < LONG_MAX" using wf by (auto simp: wf_def cap_def elim: order_le_less_trans)
  then have long: "long_of_size count' = int k"
    using k1(1) by (simp add: long_of_size_small)
  show ?thesis
  proof (cases "C < ridx + k")
    case True
    then have pos: "cap - c mod cap > 0" using ix(5) ix(2)
      by (simp add: word_less_nat_alt)
    show ?thesis
      using True C k1 k2 ix long pos
      unfolding read_transfer_def read_finish_def cap_def [symmetric] count'_def [symmetric] Let_def
      by (simp add: move_blit ring_read_def ring_moved_def C_def [symmetric] ridx_def [symmetric]
            ptr_add_def blit_from_moved)
  next
    case False
    show ?thesis
      using False C k1 k2 ix long
      unfolding read_transfer_def read_finish_def cap_def [symmetric] count'_def [symmetric] Let_def
      by (simp add: move_blit ring_read_def ring_moved_def C_def [symmetric] ridx_def [symmetric])
  qed
qed

lemma length_ring_read:
  assumes "ridx < length buf" "k \<le> length buf" "k \<le> length ys"
  shows "length (ring_read buf ridx ys k) = length ys"
  using assms by (simp add: ring_read_def)

lemma nth_ring_read:
  assumes "ridx < length buf" "k \<le> length buf" "k \<le> length ys" "i < length ys"
  shows "ring_read buf ridx ys k ! i = (if i < k then buf ! ((ridx + i) mod length buf) else ys ! i)"
  using assms
  by (auto simp: ring_read_def nth_blit mod_wrap intro!: arg_cong [where f = "(!) buf"])

lemma length_ring_moved:
  assumes "ridx < length buf" "k \<le> length buf"
  shows "length (ring_moved mf buf ridx k) = length buf"
  using assms by (simp add: ring_moved_def)

lemma ring_moved_other:
  assumes "ridx < length buf" "k \<le> length buf" "j < length buf"
    "\<forall>i<k. (ridx + i) mod length buf \<noteq> j"
  shows "ring_moved mf buf ridx k ! j = buf ! j"
proof -
  have "\<not> (ridx \<le> j \<and> j < ridx + k)"
  proof
    assume a: "ridx \<le> j \<and> j < ridx + k"
    then have "(ridx + (j - ridx)) mod length buf = j" using assms by simp
    with a assms(4) show False by (metis add_diff_inverse_nat less_diff_conv2 add.commute not_less)
  qed
  moreover have "\<not> (length buf < ridx + k \<and> j < k - (length buf - ridx))"
  proof
    assume a: "length buf < ridx + k \<and> j < k - (length buf - ridx)"
    then have "(ridx + (j + (length buf - ridx))) mod length buf = j" using assms by simp
    moreover have "j + (length buf - ridx) < k" using a by linarith
    ultimately show False using assms(4) by blast
  qed
  ultimately show ?thesis
    using assms by (auto simp: ring_moved_def nth_moved_from)
qed

declare write_blocking.simps [simp del] read_blocking.simps [simp del]

lemma get_counters_ok:
  "counters_ok rb \<Longrightarrow> get_counters rb a b d =
     (OK, map_option (\<lambda>_. m_produced (m_counters rb)) a,
          map_option (\<lambda>_. m_consumed (m_counters rb)) b,
          map_option (\<lambda>_. m_dropped (m_counters rb)) d)"
  by (auto simp: get_counters_def counters_ok_def Let_def)

lemma get_counters_bad:
  "\<not> counters_ok rb \<Longrightarrow> get_counters rb a b d = (INTERNAL_ERROR, a, b, d)"
  by (auto simp: get_counters_def counters_ok_def Let_def)

lemma free_zero_iff:
  fixes cap :: size_t
  shows "(cap - fill = 0) = (fill = cap)" "(0 = cap - fill) = (fill = cap)"
  by auto

lemma write_nonblocking_bad:
  "\<not> counters_ok rb \<Longrightarrow> write_nonblocking rb = Finish rb INTERNAL_ERROR"
  by (simp add: write_nonblocking_def get_counters_bad)

lemma write_nonblocking_ok:
  "counters_ok rb \<Longrightarrow> write_nonblocking rb =
     (if m_produced (m_counters rb) - m_consumed (m_counters rb) = m_capacity rb
      then Finish (rb\<lparr>m_counters := (m_counters rb)\<lparr>m_dropped := m_dropped (m_counters rb) + 1\<rparr>\<rparr>)
             WOULD_BLOCK
      else Proceed rb (m_produced (m_counters rb)) (m_consumed (m_counters rb))
             (m_capacity rb - (m_produced (m_counters rb) - m_consumed (m_counters rb))))"
  by (simp add: write_nonblocking_def get_counters_ok local_value_def Let_def free_zero_iff)

lemma write_blocking_bad:
  "\<not> counters_ok rb \<Longrightarrow> write_blocking False rb = Finish rb INTERNAL_ERROR"
  by (subst write_blocking.simps) (simp add: get_counters_bad)

lemma write_blocking_at_wait:
  "write_blocking True rb =
     (if m_ready (m_writing_semaphore rb) then
        (if m_is_writing_cancelled rb then
           Finish (rb\<lparr>m_writing_semaphore := (m_writing_semaphore rb)\<lparr>m_ready := False\<rparr>,
                      m_is_writing_cancelled := False\<rparr>) OPERATION_CANCELLED
         else write_blocking False
                (rb\<lparr>m_writing_semaphore := (m_writing_semaphore rb)\<lparr>m_ready := False\<rparr>\<rparr>))
      else Block rb)"
  by (subst write_blocking.simps) (simp add: wait_def)

lemma write_blocking_top:
  "counters_ok rb \<Longrightarrow> write_blocking False rb =
     (if m_produced (m_counters rb) - m_consumed (m_counters rb) = m_capacity rb
      then write_blocking True rb
      else Proceed rb (m_produced (m_counters rb)) (m_consumed (m_counters rb))
             (m_capacity rb - (m_produced (m_counters rb) - m_consumed (m_counters rb))))"
  by (subst write_blocking.simps)
     (auto simp: get_counters_ok local_value_def Let_def word_neq_0_conv [symmetric])

lemma counters_ok_sem [simp]:
  "counters_ok (rb\<lparr>m_writing_semaphore := s\<rparr>) = counters_ok rb"
  "counters_ok (rb\<lparr>m_reading_semaphore := s\<rparr>) = counters_ok rb"
  "counters_ok (rb\<lparr>m_is_writing_cancelled := b\<rparr>) = counters_ok rb"
  "counters_ok (rb\<lparr>m_is_reading_cancelled := b\<rparr>) = counters_ok rb"
  by (simp_all add: counters_ok_def)

text \<open>A blocking write on a full buffer.\<close>

lemma write_blocking_full:
  assumes "counters_ok rb"
    "m_produced (m_counters rb) - m_consumed (m_counters rb) = m_capacity rb"
  shows "write_blocking False rb =
     (if m_ready (m_writing_semaphore rb) then
        (if m_is_writing_cancelled rb then
           Finish (rb\<lparr>m_writing_semaphore := (m_writing_semaphore rb)\<lparr>m_ready := False\<rparr>,
                      m_is_writing_cancelled := False\<rparr>) OPERATION_CANCELLED
         else Block (rb\<lparr>m_writing_semaphore := (m_writing_semaphore rb)\<lparr>m_ready := False\<rparr>\<rparr>))
      else Block rb)"
  using assms
  by (simp add: write_blocking_top write_blocking_at_wait)

lemma read_nonblocking_bad:
  "\<not> counters_ok rb \<Longrightarrow> read_nonblocking rb = Finish rb INTERNAL_ERROR"
  by (simp add: read_nonblocking_def get_counters_bad)

lemma read_nonblocking_ok:
  "counters_ok rb \<Longrightarrow> read_nonblocking rb =
     (if m_produced (m_counters rb) = m_consumed (m_counters rb)
      then Finish rb WOULD_BLOCK
      else Proceed rb (m_produced (m_counters rb)) (m_consumed (m_counters rb))
             (m_produced (m_counters rb) - m_consumed (m_counters rb)))"
  by (auto simp add: read_nonblocking_def get_counters_ok local_value_def Let_def)

lemma read_blocking_bad:
  "\<not> counters_ok rb \<Longrightarrow> read_blocking False rb = Finish rb INTERNAL_ERROR"
  by (subst read_blocking.simps) (simp add: get_counters_bad)

lemma read_blocking_at_wait:
  "read_blocking True rb =
     (if m_ready (m_reading_semaphore rb) then
        (if m_is_reading_cancelled rb then
           Finish (rb\<lparr>m_reading_semaphore := (m_reading_semaphore rb)\<lparr>m_ready := False\<rparr>,
                      m_is_reading_cancelled := False\<rparr>) OPERATION_CANCELLED
         else read_blocking False
                (rb\<lparr>m_reading_semaphore := (m_reading_semaphore rb)\<lparr>m_ready := False\<rparr>\<rparr>))
      else Block rb)"
  by (subst read_blocking.simps) (simp add: wait_def)

lemma read_blocking_top:
  "counters_ok rb \<Longrightarrow> read_blocking False rb =
     (if m_produced (m_counters rb) = m_consumed (m_counters rb)
      then read_blocking True rb
      else Proceed rb (m_produced (m_counters rb)) (m_consumed (m_counters rb))
             (m_produced (m_counters rb) - m_consumed (m_counters rb)))"
  by (subst read_blocking.simps)
     (auto simp: get_counters_ok local_value_def Let_def word_neq_0_conv [symmetric])

lemma read_blocking_empty:
  assumes "m_produced (m_counters rb) = m_consumed (m_counters rb)"
  shows "read_blocking False rb =
     (if m_ready (m_reading_semaphore rb) then
        (if m_is_reading_cancelled rb then
           Finish (rb\<lparr>m_reading_semaphore := (m_reading_semaphore rb)\<lparr>m_ready := False\<rparr>,
                      m_is_reading_cancelled := False\<rparr>) OPERATION_CANCELLED
         else Block (rb\<lparr>m_reading_semaphore := (m_reading_semaphore rb)\<lparr>m_ready := False\<rparr>\<rparr>))
      else Block rb)"
proof -
  have "counters_ok rb" using assms by (simp add: counters_ok_def)
  then show ?thesis using assms
    by (simp add: read_blocking_top read_blocking_at_wait)
qed

lemma pending_frame [simp]:
  "pending (rb\<lparr>m_writing_semaphore := s\<rparr>) = pending rb"
  "pending (rb\<lparr>m_reading_semaphore := s\<rparr>) = pending rb"
  "pending (rb\<lparr>m_is_writing_cancelled := b\<rparr>) = pending rb"
  "pending (rb\<lparr>m_is_reading_cancelled := b\<rparr>) = pending rb"
  "pending (rb\<lparr>m_counters := (m_counters rb)\<lparr>m_dropped := d\<rparr>\<rparr>) = pending rb"
  by (simp_all add: pending_def)

lemma wf_frame [simp]:
  "wf (rb\<lparr>m_writing_semaphore := s\<rparr>) = wf rb"
  "wf (rb\<lparr>m_reading_semaphore := s\<rparr>) = wf rb"
  "wf (rb\<lparr>m_is_writing_cancelled := b\<rparr>) = wf rb"
  "wf (rb\<lparr>m_is_reading_cancelled := b\<rparr>) = wf rb"
  "wf (rb\<lparr>m_counters := cs\<rparr>) = wf rb"
  by (simp_all add: wf_def)

lemma mod_add_mod_left: "(a mod C + i) mod C = (a + i) mod (C::nat)"
  by (simp add: mod_add_left_eq)

lemma pending_write:
  fixes rb :: "'a ringbuffer"
  assumes wf: "wf rb" and ok: "counters_ok rb"
    and k: "k \<le> unat (m_capacity rb) - unat (m_produced (m_counters rb) - m_consumed (m_counters rb))"
      "k \<le> length xs"
  shows "pending (rb\<lparr>m_buffer := ring_blit (m_buffer rb)
                        (unat (m_produced (m_counters rb)) mod unat (m_capacity rb)) xs k,
                     m_counters := (m_counters rb)\<lparr>m_produced := m_produced (m_counters rb) + of_nat k\<rparr>\<rparr>)
         = pending rb @ take k xs"
proof -
  define p where "p = m_produced (m_counters rb)"
  define c where "c = m_consumed (m_counters rb)"
  define C where "C = unat (m_capacity rb)"
  define fill where "fill = unat (p - c)"
  define buf where "buf = m_buffer rb"
  note W = wf_facts [OF wf, folded C_def]
  have cp: "c \<le> p" "p - c \<le> m_capacity rb"
    using ok by (simp_all add: counters_ok_def p_def c_def)
  note F = free_facts [OF cp, folded C_def fill_def]
  have pc: "unat p = unat c + fill" using F by (simp add: fill_def)
  have kC: "fill + k \<le> C" using k(1) F by (simp add: C_def fill_def p_def c_def)
  have e: "p + of_nat k - c = (p - c) + of_nat k" by simp
  have "unat ((p - c) + of_nat k) = fill + k"
  proof -
    have "unat (of_nat k :: size_t) = k" using kC W by (simp add: unat_of_nat)
    moreover have "fill + k < 2 ^ LENGTH(64)" using kC W by simp
    ultimately show ?thesis
      by (simp add: unat_add_lem [THEN iffD1] fill_def)
  qed
  then have fill': "unat (p + of_nat k - c) = fill + k" by (simp only: e)
  have widx: "unat p mod C < length buf" "k \<le> length buf"
    using W kC by (simp_all add: buf_def)
  have old: "ring_blit buf (unat p mod C) xs k ! ((unat c + i) mod C) = buf ! ((unat c + i) mod C)"
    if "i < fill" for i
  proof (rule ring_blit_other [OF widx k(2)])
    show "(unat c + i) mod C < length buf" using W by (simp add: buf_def)
    show "\<forall>i'<k. (unat p mod C + i') mod length buf \<noteq> (unat c + i) mod C"
    proof (intro allI impI)
      fix i' assume "i' < k"
      have "(unat c + i + (fill + i' - i)) mod C \<noteq> (unat c + i) mod C"
        using that \<open>i' < k\<close> kC by (intro mod_distinct) simp_all
      moreover have "unat c + i + (fill + i' - i) = unat p + i'"
        using that pc by simp
      ultimately show "(unat p mod C + i') mod length buf \<noteq> (unat c + i) mod C"
        using W by (simp add: buf_def mod_add_mod_left)
    qed
  qed
  have new: "ring_blit buf (unat p mod C) xs k ! ((unat c + i) mod C) = xs ! (i - fill)"
    if "fill \<le> i" "i < fill + k" for i
  proof -
    have "(unat p mod C + (i - fill)) mod C = (unat p + (i - fill)) mod C"
      by (rule mod_add_mod_left)
    also have "unat p + (i - fill) = unat c + i" using that pc by simp
    finally have "(unat c + i) mod C = (unat p mod C + (i - fill)) mod length buf"
      using W by (simp add: buf_def)
    then show ?thesis
      using ring_blit_written [OF widx k(2), of "i - fill"] that by simp
  qed
  have 1: "pending (rb\<lparr>m_buffer := ring_blit (m_buffer rb)
                        (unat (m_produced (m_counters rb)) mod unat (m_capacity rb)) xs k,
                     m_counters := (m_counters rb)\<lparr>m_produced := m_produced (m_counters rb) + of_nat k\<rparr>\<rparr>)
      = map (\<lambda>i. ring_blit buf (unat p mod C) xs k ! ((unat c + i) mod C))
          [0..<unat (p + of_nat k - c)]"
    by (simp add: pending_def p_def c_def C_def buf_def)
  have 2: "pending rb = map (\<lambda>i. buf ! ((unat c + i) mod C)) [0..<fill]"
    by (simp add: pending_def p_def c_def C_def buf_def fill_def)
  show ?thesis
    unfolding 1 2 fill'
    by (rule nth_equalityI) (use old new k(2) in \<open>auto simp: nth_append\<close>)
qed

lemma pending_read:
  fixes rb :: "'a ringbuffer"
  assumes wf: "wf rb" and ok: "counters_ok rb"
    and k: "k \<le> unat (m_produced (m_counters rb) - m_consumed (m_counters rb))"
  shows "pending (rb\<lparr>m_buffer := ring_moved mf (m_buffer rb)
                        (unat (m_consumed (m_counters rb)) mod unat (m_capacity rb)) k,
                     m_counters := (m_counters rb)\<lparr>m_consumed := m_consumed (m_counters rb) + of_nat k\<rparr>\<rparr>)
         = drop k (pending rb)"
proof -
  define p where "p = m_produced (m_counters rb)"
  define c where "c = m_consumed (m_counters rb)"
  define C where "C = unat (m_capacity rb)"
  define fill where "fill = unat (p - c)"
  define buf where "buf = m_buffer rb"
  note W = wf_facts [OF wf, folded C_def]
  have cp: "c \<le> p" "p - c \<le> m_capacity rb"
    using ok by (simp_all add: counters_ok_def p_def c_def)
  note F = free_facts [OF cp, folded C_def fill_def]
  have pc: "unat p = unat c + fill" using F by (simp add: fill_def)
  have kf: "k \<le> fill" "fill \<le> C" using k F by (simp_all add: fill_def p_def c_def)
  have uk: "unat (of_nat k :: size_t) = k" using kf W by (simp add: unat_of_nat)
  have "unat c + k < 2 ^ LENGTH(64)"
    using kf pc unsigned_less [of p, where 'a = nat] by simp
  then have c': "unat (c + of_nat k) = unat c + k"
    using uk by (simp add: unat_add_lem [THEN iffD1])
  then have "c + of_nat k \<le> p" using pc kf by (simp add: word_le_nat_alt)
  then have fill': "unat (p - (c + of_nat k)) = fill - k"
    using c' pc by (simp add: unat_sub)
  have ridx: "unat c mod C < length buf" "k \<le> length buf"
    using W kf by (simp_all add: buf_def)
  have rest: "ring_moved mf buf (unat c mod C) k ! ((unat c + k + i) mod C)
      = buf ! ((unat c + (k + i)) mod C)"
    if "i < fill - k" for i
  proof -
    have "ring_moved mf buf (unat c mod C) k ! ((unat c + (k + i)) mod C)
        = buf ! ((unat c + (k + i)) mod C)"
    proof (rule ring_moved_other [OF ridx])
      show "(unat c + (k + i)) mod C < length buf" using W by (simp add: buf_def)
      show "\<forall>i'<k. (unat c mod C + i') mod length buf \<noteq> (unat c + (k + i)) mod C"
      proof (intro allI impI)
        fix i' assume "i' < k"
        have "(unat c + i' + (k + i - i')) mod C \<noteq> (unat c + i') mod C"
          using that \<open>i' < k\<close> kf by (intro mod_distinct) simp_all
        moreover have "unat c + i' + (k + i - i') = unat c + (k + i)"
          using \<open>i' < k\<close> by simp
        ultimately show "(unat c mod C + i') mod length buf \<noteq> (unat c + (k + i)) mod C"
          using W by (simp add: buf_def mod_add_mod_left)
      qed
    qed
    then show ?thesis by (simp add: add.assoc)
  qed
  have 1: "pending (rb\<lparr>m_buffer := ring_moved mf (m_buffer rb)
                        (unat (m_consumed (m_counters rb)) mod unat (m_capacity rb)) k,
                     m_counters := (m_counters rb)\<lparr>m_consumed := m_consumed (m_counters rb) + of_nat k\<rparr>\<rparr>)
      = map (\<lambda>i. ring_moved mf buf (unat c mod C) k ! ((unat (c + of_nat k) + i) mod C))
          [0..<unat (p - (c + of_nat k))]"
    by (simp add: pending_def p_def c_def C_def buf_def)
  have 2: "pending rb = map (\<lambda>i. buf ! ((unat c + i) mod C)) [0..<fill]"
    by (simp add: pending_def p_def c_def C_def buf_def fill_def)
  show ?thesis
    unfolding 1 2 fill' c'
    by (rule nth_equalityI) (use rest kf in \<open>auto simp: nth_append\<close>)
qed

lemma ring_read_pending:
  fixes rb :: "'a ringbuffer"
  assumes wf: "wf rb" and ok: "counters_ok rb"
    and k: "k \<le> unat (m_produced (m_counters rb) - m_consumed (m_counters rb))" "k \<le> length ys"
  shows "ring_read (m_buffer rb) (unat (m_consumed (m_counters rb)) mod unat (m_capacity rb)) ys k
         = take k (pending rb) @ drop k ys"
proof -
  define C where "C = unat (m_capacity rb)"
  note W = wf_facts [OF wf, folded C_def]
  have cp: "m_consumed (m_counters rb) \<le> m_produced (m_counters rb)"
    "m_produced (m_counters rb) - m_consumed (m_counters rb) \<le> m_capacity rb"
    using ok by (simp_all add: counters_ok_def)
  note F = free_facts [OF cp, folded C_def]
  have kC: "k \<le> C" using k(1) F by simp
  have ridx: "unat (m_consumed (m_counters rb)) mod C < length (m_buffer rb)"
    "k \<le> length (m_buffer rb)"
    using W kC by simp_all
  show ?thesis
    unfolding C_def [symmetric]
    by (rule nth_equalityI)
       (use k W in \<open>auto simp: length_ring_read [OF ridx] nth_ring_read [OF ridx] nth_append
           pending_def C_def [symmetric] mod_add_mod_left\<close>)
qed

lemma unat_of_nat_length_le: "unat (of_nat (length xs) :: size_t) \<le> length xs"
  by (simp add: unat_of_nat)

lemma copy_is_move: "copy = move (\<lambda>x. x)"
proof (intro ext)
  fix d s :: "'a ptr" and n
  show "copy d s n = move (\<lambda>x. x) d s n"
    by (cases d; cases s) (simp add: copy_eq_move)
qed

lemma write_copy_eq_move: "write_copy rb xs = write_move (\<lambda>x. x) rb xs"
  by (simp add: write_copy_def write_move_def copy_is_move)

lemma read_copy_eq_move: "read_copy rb ys = read_move (\<lambda>x. x) rb ys"
  by (simp add: read_copy_def read_move_def copy_is_move)

lemma write_move_zero:
  "of_nat (length xs) = (0::size_t) \<Longrightarrow> write_move mf rb xs = Returned rb xs 0"
  by (simp add: write_move_def rb_write_def)

lemma write_move_bad:
  "of_nat (length xs) \<noteq> (0::size_t) \<Longrightarrow> \<not> counters_ok rb \<Longrightarrow>
   write_move mf rb xs = Returned rb xs (- 1)"
  by (simp add: write_move_def rb_write_def write_admitted_def write_nonblocking_bad
      write_blocking_bad)

lemma write_move_full:
  assumes "of_nat (length xs) \<noteq> (0::size_t)" "counters_ok rb"
    "m_produced (m_counters rb) - m_consumed (m_counters rb) = m_capacity rb"
  shows "write_move mf rb xs =
    (if test (m_flags rb) RINGBUFFER_NONBLOCKING_WRITE_SHIFT then
       Returned (rb\<lparr>m_counters := (m_counters rb)\<lparr>m_dropped := m_dropped (m_counters rb) + 1\<rparr>\<rparr>)
         xs (- 2)
     else if m_ready (m_writing_semaphore rb) then
       (if m_is_writing_cancelled rb then
          Returned (rb\<lparr>m_writing_semaphore := (m_writing_semaphore rb)\<lparr>m_ready := False\<rparr>,
                      m_is_writing_cancelled := False\<rparr>) xs (- 3)
        else Parked (rb\<lparr>m_writing_semaphore := (m_writing_semaphore rb)\<lparr>m_ready := False\<rparr>\<rparr>))
     else Parked rb)"
  using assms
  by (simp add: write_move_def rb_write_def write_admitted_def write_nonblocking_ok
      write_blocking_full)

lemma write_move_room:
  assumes "of_nat (length xs) \<noteq> (0::size_t)" "wf rb" "counters_ok rb"
    "m_produced (m_counters rb) - m_consumed (m_counters rb) \<noteq> m_capacity rb"
  defines "k \<equiv> min (unat (of_nat (length xs) :: size_t))
      (unat (m_capacity rb) - unat (m_produced (m_counters rb) - m_consumed (m_counters rb)))"
  shows "write_move mf rb xs =
    Returned
      (rb\<lparr>m_buffer := ring_blit (m_buffer rb)
            (unat (m_produced (m_counters rb)) mod unat (m_capacity rb)) xs k,
          m_counters := (m_counters rb)\<lparr>m_produced := m_produced (m_counters rb) + of_nat k\<rparr>,
          m_reading_semaphore :=
            (if test (m_flags rb) RINGBUFFER_NONBLOCKING_READ_SHIFT then m_reading_semaphore rb
             else post (m_reading_semaphore rb))\<rparr>)
      (moved_from mf xs 0 k) (int k)"
proof -
  have cp: "m_consumed (m_counters rb) \<le> m_produced (m_counters rb)"
    "m_produced (m_counters rb) - m_consumed (m_counters rb) \<le> m_capacity rb"
    using assms(3) by (simp_all add: counters_ok_def)
  have free: "m_capacity rb - (m_produced (m_counters rb) - m_consumed (m_counters rb)) \<noteq> 0"
    using assms(4) by auto
  have k: "k = min (unat (of_nat (length xs) :: size_t))
      (unat (m_capacity rb - (m_produced (m_counters rb) - m_consumed (m_counters rb))))"
    using free_facts [OF cp] by (simp add: k_def)
  show ?thesis
    using assms(1,3,4)
    by (simp add: write_move_def rb_write_def write_admitted_def write_nonblocking_ok
        write_blocking_top k
        write_transfer_move [OF assms(2) cp refl free unat_of_nat_length_le])
qed

lemma read_move_zero:
  "of_nat (length ys) = (0::size_t) \<Longrightarrow> read_move mf rb ys = Returned rb ys 0"
  by (simp add: read_move_def rb_read_def)

lemma read_move_bad:
  "of_nat (length ys) \<noteq> (0::size_t) \<Longrightarrow> \<not> counters_ok rb \<Longrightarrow>
   read_move mf rb ys = Returned rb ys (- 1)"
  by (simp add: read_move_def rb_read_def read_admitted_def read_nonblocking_bad
      read_blocking_bad)

lemma read_move_empty:
  assumes "of_nat (length ys) \<noteq> (0::size_t)"
    "m_produced (m_counters rb) = m_consumed (m_counters rb)"
  shows "read_move mf rb ys =
    (if test (m_flags rb) RINGBUFFER_NONBLOCKING_READ_SHIFT then Returned rb ys (- 2)
     else if m_ready (m_reading_semaphore rb) then
       (if m_is_reading_cancelled rb then
          Returned (rb\<lparr>m_reading_semaphore := (m_reading_semaphore rb)\<lparr>m_ready := False\<rparr>,
                      m_is_reading_cancelled := False\<rparr>) ys (- 3)
        else Parked (rb\<lparr>m_reading_semaphore := (m_reading_semaphore rb)\<lparr>m_ready := False\<rparr>\<rparr>))
     else Parked rb)"
proof -
  have "counters_ok rb" using assms(2) by (simp add: counters_ok_def)
  then show ?thesis
    using assms
    by (simp add: read_move_def rb_read_def read_admitted_def read_nonblocking_ok
        read_blocking_empty)
qed

lemma read_move_data:
  assumes "of_nat (length ys) \<noteq> (0::size_t)" "wf rb" "counters_ok rb"
    "m_produced (m_counters rb) \<noteq> m_consumed (m_counters rb)"
  defines "k \<equiv> min (unat (of_nat (length ys) :: size_t))
      (unat (m_produced (m_counters rb) - m_consumed (m_counters rb)))"
  shows "read_move mf rb ys =
    Returned
      (rb\<lparr>m_buffer := ring_moved mf (m_buffer rb)
            (unat (m_consumed (m_counters rb)) mod unat (m_capacity rb)) k,
          m_counters := (m_counters rb)\<lparr>m_consumed := m_consumed (m_counters rb) + of_nat k\<rparr>,
          m_writing_semaphore :=
            (if test (m_flags rb) RINGBUFFER_NONBLOCKING_WRITE_SHIFT then m_writing_semaphore rb
             else post (m_writing_semaphore rb))\<rparr>)
      (take k (pending rb) @ drop k ys) (int k)"
proof -
  have cp: "m_consumed (m_counters rb) \<le> m_produced (m_counters rb)"
    "m_produced (m_counters rb) - m_consumed (m_counters rb) \<le> m_capacity rb"
    using assms(3) by (simp_all add: counters_ok_def)
  have avail: "m_produced (m_counters rb) - m_consumed (m_counters rb) \<noteq> 0"
    using assms(4) by auto
  have k: "k \<le> unat (m_produced (m_counters rb) - m_consumed (m_counters rb))" "k \<le> length ys"
    using unat_of_nat_length_le [of ys] by (simp_all add: k_def)
  show ?thesis
    using assms(1,3,4)
    by (simp add: read_move_def rb_read_def read_admitted_def read_nonblocking_ok
        read_blocking_top k_def [symmetric]
        read_transfer_move [OF assms(2) cp refl avail unat_of_nat_length_le]
        ring_read_pending [OF assms(2,3) k])
qed

section \<open>Complex multiplication\<close>

lemma mul_assign_components:
  "m_re (mul_assign a b) = m_re a * m_re b - m_im a * m_im b"
  "m_im (mul_assign a b) =
     (m_re a * m_re b - m_im a * m_im b) * m_im b + m_im a * m_re b"
  by (simp_all add: mul_assign_def Let_def)

text \<open>
  C10. \<^verbatim>\<open>a *= b\<close> is to leave \<open>a\<close> equal to the product \<^verbatim>\<open>a * b\<close>, both
  components computed from the original components of \<open>a\<close>. The code does not:
  on \<open>a = b = 1 + i\<close> over the integers the out-of-place product is \<open>0 + 2i\<close>,
  while the in-place operator yields \<open>0 + 1i\<close>, its imaginary part being
  computed from the real part it has just overwritten.
\<close>

theorem mul_assign_differs_from_mul:
  "mul_assign \<lparr>m_re = 1, m_im = 1\<rparr> \<lparr>m_re = 1, m_im = 1\<rparr> = \<lparr>m_re = 0, m_im = (1::int)\<rparr>
   \<and> mul \<lparr>m_re = 1, m_im = 1\<rparr> \<lparr>m_re = 1, m_im = 1\<rparr> = \<lparr>m_re = 0, m_im = (2::int)\<rparr>"
  by (simp add: mul_assign_def mul_def Let_def)

section \<open>Validation of the counters\<close>

lemma rb_write_bad:
  "count \<noteq> 0 \<Longrightarrow> \<not> counters_ok rb \<Longrightarrow>
   rb_write xfer advance rb mem data count = Returned rb mem (- 1)"
  by (simp add: rb_write_def write_admitted_def write_nonblocking_bad write_blocking_bad)

lemma rb_read_bad:
  "count \<noteq> 0 \<Longrightarrow> \<not> counters_ok rb \<Longrightarrow>
   rb_read xfer advance rb mem data count = Returned rb mem (- 1)"
  by (simp add: rb_read_def read_admitted_def read_nonblocking_bad read_blocking_bad)

text \<open>
  C6. \<^verbatim>\<open>get_counters\<close> returns \<^verbatim>\<open>INTERNAL_ERROR\<close>, storing nothing, when the loaded
  counters satisfy \<^verbatim>\<open>produced < consumed\<close> or \<^verbatim>\<open>produced - consumed > capacity\<close>;
  otherwise it returns \<^verbatim>\<open>OK\<close> and stores \<^verbatim>\<open>produced\<close>, \<^verbatim>\<open>consumed\<close> and
  \<^verbatim>\<open>dropped\<close> through each out-pointer that is not null. A write or read that
  takes a snapshot (a request for \<^verbatim>\<open>count > 0\<close> elements) of counters violating
  the two invariants returns \<^verbatim>\<open>INTERNAL_ERROR\<close> and leaves the ring buffer and the
  caller's memory as they are, whatever the transfer function.
\<close>

theorem counters_validated:
  fixes rb :: "'a ringbuffer"
  defines "l_produced \<equiv> m_produced (m_counters rb)"
    and "l_consumed \<equiv> m_consumed (m_counters rb)"
  shows "(l_produced < l_consumed \<or> l_produced - l_consumed > m_capacity rb \<longrightarrow>
            get_counters rb produced consumed dropped
              = (INTERNAL_ERROR, produced, consumed, dropped) \<and>
            (count \<noteq> 0 \<longrightarrow>
               rb_write wxfer wadvance rb wmem wdata count
                 = Returned rb wmem (status_long INTERNAL_ERROR) \<and>
               rb_read rxfer radvance rb rmem rdata count
                 = Returned rb rmem (status_long INTERNAL_ERROR))) \<and>
         (\<not> (l_produced < l_consumed \<or> l_produced - l_consumed > m_capacity rb) \<longrightarrow>
            get_counters rb produced consumed dropped
              = (OK, map_option (\<lambda>_. l_produced) produced,
                     map_option (\<lambda>_. l_consumed) consumed,
                     map_option (\<lambda>_. m_dropped (m_counters rb)) dropped))"
proof -
  have ok: "counters_ok rb \<longleftrightarrow>
      \<not> (l_produced < l_consumed \<or> l_produced - l_consumed > m_capacity rb)"
    by (auto simp: counters_ok_def l_produced_def l_consumed_def)
  show ?thesis
  proof (cases "counters_ok rb")
    case True
    with ok show ?thesis
      by (simp add: get_counters_ok l_produced_def l_consumed_def)
  next
    case False
    with ok show ?thesis
      by (simp add: get_counters_bad rb_write_bad rb_read_bad)
  qed
qed

theorem counters_validated_witness:
  "m_produced (m_counters broken) < m_consumed (m_counters broken) \<and>
   get_counters broken (Some 7) None (Some 9) = (INTERNAL_ERROR, Some 7, None, Some 9) \<and>
   write_copy broken [5] = Returned broken [5] (- 1) \<and>
   read_copy broken [5] = Returned broken [5] (- 1)"
proof -
  have h: "m_produced (m_counters broken) < m_consumed (m_counters broken)"
    by (simp add: broken_def)
  have one: "(1::size_t) \<noteq> 0" by simp
  from h one show ?thesis
    using counters_validated [of broken "Some 7" None "Some 9" 1
        "\<lambda>dst mem data. copy dst (mem, data)" ptr_add "[5]" 0
        "\<lambda>mem data src. copy (mem, data) src" ptr_add "[5]" 0]
    by (simp add: write_copy_def read_copy_def)
qed

section \<open>Cancellation\<close>

text \<open>
  C9, as stated, fails on a ring buffer whose faces are non-blocking: there
  \<^verbatim>\<open>cancel\<close> is guarded by the test of the flag and does nothing.
\<close>

theorem cancel_nonblocking_counterexample:
  "ringbuffer_new (0::int) 4 RINGBUFFER_RD_NONBLOCKING_WR_NONBLOCKING \<noteq> None \<and>
   (case ringbuffer_new (0::int) 4 RINGBUFFER_RD_NONBLOCKING_WR_NONBLOCKING of
      Some rb \<Rightarrow> \<not> m_is_writing_cancelled (cancel PRODUCER rb) \<and>
                 \<not> m_ready (m_reading_semaphore (cancel CONSUMER rb)) \<and>
                 \<not> m_is_reading_cancelled (cancel CONSUMER rb)
    | None \<Rightarrow> False)"
  by (simp add: ringbuffer_new_def LONG_MAX_def cancel_def test_def
      RINGBUFFER_RD_NONBLOCKING_WR_NONBLOCKING_def RINGBUFFER_NONBLOCKING_WRITE_SHIFT_def
      RINGBUFFER_NONBLOCKING_READ_SHIFT_def binary_semaphore_new_def)

text \<open>
  C9, amended. \<^verbatim>\<open>cancel(PRODUCER)\<close> on a ring buffer with blocking writes sets
  \<^verbatim>\<open>m_is_writing_cancelled\<close> and posts \<^verbatim>\<open>m_writing_semaphore\<close>,
  \<^verbatim>\<open>cancel(CONSUMER)\<close> on a ring buffer with blocking reads sets
  \<^verbatim>\<open>m_is_reading_cancelled\<close> and posts \<^verbatim>\<open>m_reading_semaphore\<close>; nothing else
  changes. On a face configured non-blocking \<^verbatim>\<open>cancel\<close> changes nothing at all.
\<close>

theorem cancel_blocking_side_only:
  "cancel PRODUCER rb =
     (if test (m_flags rb) RINGBUFFER_NONBLOCKING_WRITE_SHIFT then rb
      else rb\<lparr>m_is_writing_cancelled := True,
               m_writing_semaphore := post (m_writing_semaphore rb)\<rparr>) \<and>
   cancel CONSUMER rb =
     (if test (m_flags rb) RINGBUFFER_NONBLOCKING_READ_SHIFT then rb
      else rb\<lparr>m_is_reading_cancelled := True,
               m_reading_semaphore := post (m_reading_semaphore rb)\<rparr>)"
  by (simp add: cancel_def Let_def)

section \<open>The binary semaphore\<close>

lemma posts_simps [simp]:
  "posts [] = 0" "posts (Post # ops) = Suc (posts ops)" "posts (Wait # ops) = posts ops"
  by (simp_all add: posts_def)

lemma waits_simps [simp]:
  "waits [] = 0" "waits (Post # ops) = waits ops" "waits (Wait # ops) = Suc (waits ops)"
  by (simp_all add: waits_def)

lemma sem_run_simps [simp]:
  "sem_run st [] = st" "sem_run st (e # ops) = sem_run (sem_step st e) ops"
  by (simp_all add: sem_run_def)

text \<open>
  The count of returned waits, from any state of the run: \<open>p\<close> posts and \<open>w\<close>
  waits have passed, \<open>k\<close> waits have returned, and once a wait has found the
  flag clear no post follows.
\<close>

lemma sem_run_count:
  "posts_precede (p + posts ops) p w ops \<Longrightarrow> posts_fresh s ops \<Longrightarrow>
   k = min p w \<Longrightarrow> (m_ready s \<longleftrightarrow> p = Suc k) \<Longrightarrow> (p = k \<or> p = Suc k) \<Longrightarrow>
   (k < w \<longrightarrow> posts ops = 0) \<Longrightarrow>
   snd (sem_run (s, k) ops) = min (p + posts ops) (w + waits ops)"
proof (induction ops arbitrary: s k p w)
  case Nil
  then show ?case by simp
next
  case (Cons e ops)
  show ?case
  proof (cases e)
    case Post
    with Cons.prems
    have "snd (sem_run (post s, k) ops) = min (Suc p + posts ops) (w + waits ops)"
      by (intro Cons.IH) (auto simp: post_def get_value_def)
    with Post show ?thesis by simp
  next
    case Wait
    show ?thesis
    proof (cases "m_ready s")
      case True
      with Wait Cons.prems
      have "snd (sem_run (s\<lparr>m_ready := False\<rparr>, Suc k) ops)
          = min (p + posts ops) (Suc w + waits ops)"
        by (intro Cons.IH) (auto simp: wait_def)
      with Wait True show ?thesis by (simp add: wait_def)
    next
      case False
      with Wait Cons.prems
      have "snd (sem_run (s, k) ops) = min (p + posts ops) (Suc w + waits ops)"
        by (intro Cons.IH) (auto simp: wait_def)
      with Wait False show ?thesis by (simp add: wait_def)
    qed
  qed
qed

text \<open>
  C8, as stated, fails: the sequence post, post, wait, wait delivers each post
  before the corresponding wait starts, yet the second post finds the flag set
  and is absorbed, so only one of the two waits returns.
\<close>

theorem semaphore_coalesces_counterexample:
  "delivered_before [Post, Post, Wait, Wait] \<and>
   successful_waits [Post, Post, Wait, Wait] = 1 \<and>
   min (posts [Post, Post, Wait, Wait]) (waits [Post, Post, Wait, Wait]) = 2"
  by (simp add: delivered_before_def successful_waits_def binary_semaphore_new_def
      post_def wait_def)

text \<open>
  C8, amended. For a binary semaphore that starts with the flag clear, after any
  finite sequence of \<^verbatim>\<open>post\<close> and \<^verbatim>\<open>wait\<close> calls in which every post is delivered
  before the corresponding wait starts and no post is issued while the flag is
  still set, the number of waits that return equals the minimum of the number of
  posts and the number of waits. \<^verbatim>\<open>post\<close> is idempotent: a second post on a set
  flag changes nothing.
\<close>

theorem semaphore_successful_waits:
  "delivered_before ops \<Longrightarrow> posts_fresh (binary_semaphore_new False) ops \<Longrightarrow>
   successful_waits ops = min (posts ops) (waits ops) \<and> post (post s) = post s"
  using sem_run_count [of 0 ops 0 "binary_semaphore_new False" 0]
  by (simp add: delivered_before_def successful_waits_def binary_semaphore_new_def post_def)

theorem semaphore_successful_waits_witness:
  "delivered_before [Post, Wait, Post, Wait, Wait] \<and>
   posts_fresh (binary_semaphore_new False) [Post, Wait, Post, Wait, Wait] \<and>
   successful_waits [Post, Wait, Post, Wait, Wait] = 2 \<and>
   min (posts [Post, Wait, Post, Wait, Wait]) (waits [Post, Wait, Post, Wait, Wait]) = 2"
  using semaphore_successful_waits [of "[Post, Wait, Post, Wait, Wait]"]
  by (simp add: delivered_before_def binary_semaphore_new_def get_value_def post_def wait_def)

section \<open>What a traced callback records\<close>

lemma xfer_producer_traced:
  "xfer_producer (dst, di) (s, b) (traced f) n = Some (status, dst', (s', b')) \<Longrightarrow>
   b' = (b \<or> \<not> status)"
proof (induction n arbitrary: dst di s b)
  case 0
  then show ?case by simp
next
  case (Suc n)
  then show ?case
    by (auto simp: traced_def split: if_splits prod.splits)
qed

lemma xfer_consumer_traced:
  "xfer_consumer (s, b) (traced f) (src, si) n = Some (status, (s', b'), src') \<Longrightarrow>
   b' = (b \<or> \<not> status)"
proof (induction n arbitrary: src si s b)
  case 0
  then show ?case by simp
next
  case (Suc n)
  then show ?case
    by (auto simp: traced_def split: if_splits prod.splits)
qed

lemma write_nonblocking_Proceed:
  "write_nonblocking rb = Proceed rb1 p c free \<Longrightarrow> rb1 = rb"
  by (auto simp: write_nonblocking_def Let_def split: prod.splits if_splits)

lemma write_blocking_Proceed:
  "write_blocking at_wait rb = Proceed rb1 p c free \<Longrightarrow> m_counters rb1 = m_counters rb"
proof (induction at_wait rb rule: write_blocking.induct)
  case (1 at_wait rb)
  from "1.prems" show ?case
    apply (subst (asm) write_blocking.simps)
    apply (auto simp: Let_def split: if_splits option.splits prod.splits dest!: "1.IH")
    done
qed

lemma read_nonblocking_Proceed:
  "read_nonblocking rb = Proceed rb1 p c avail \<Longrightarrow> rb1 = rb"
  by (auto simp: read_nonblocking_def Let_def split: prod.splits if_splits)

lemma read_blocking_Proceed:
  "read_blocking at_wait rb = Proceed rb1 p c avail \<Longrightarrow> m_counters rb1 = m_counters rb"
proof (induction at_wait rb rule: read_blocking.induct)
  case (1 at_wait rb)
  from "1.prems" show ?case
    apply (subst (asm) read_blocking.simps)
    apply (auto simp: Let_def split: if_splits option.splits prod.splits dest!: "1.IH")
    done
qed

lemma write_finish_traced:
  assumes "write_finish (\<lambda>dst mem data. xfer_producer dst mem data) rb (s, False) (traced f)
      remaining write_idx produced count = Returned rb' (s', True) r"
  shows "r = - 1 \<and> m_counters rb' = m_counters rb"
  using assms
  by (auto simp: write_finish_def Let_def split: option.splits prod.splits if_splits
      dest: xfer_producer_traced)

lemma write_transfer_traced:
  assumes "write_transfer (\<lambda>dst mem data. xfer_producer dst mem data) functor_advance rb
      (s, False) (traced f) count produced free = Returned rb' (s', True) r"
  shows "r = - 1 \<and> m_counters rb' = m_counters rb"
  using assms
  by (auto simp: write_transfer_def functor_advance_def Let_def
      split: option.splits prod.splits if_splits
      dest!: xfer_producer_traced write_finish_traced)

lemma read_finish_traced:
  assumes "read_finish (\<lambda>mem data src. xfer_consumer mem data src) rb (s, False) (traced f)
      remaining read_idx consumed count = Returned rb' (s', True) r"
  shows "r = - 1 \<and> m_counters rb' = m_counters rb"
  using assms
  by (auto simp: read_finish_def Let_def split: option.splits prod.splits if_splits
      dest: xfer_consumer_traced)

lemma read_transfer_traced:
  assumes "read_transfer (\<lambda>mem data src. xfer_consumer mem data src) functor_advance rb
      (s, False) (traced f) count consumed avail = Returned rb' (s', True) r"
  shows "r = - 1 \<and> m_counters rb' = m_counters rb"
  using assms
  by (auto simp: read_transfer_def functor_advance_def Let_def
      split: option.splits prod.splits if_splits
      dest!: xfer_consumer_traced read_finish_traced)

lemma write_via_traced:
  assumes "write_via rb (traced f) (s, False) count = Returned rb' (s', True) r"
  shows "r = - 1 \<and> m_counters rb' = m_counters rb"
  using assms
  by (auto simp: write_via_def rb_write_def write_admitted_def
      split: if_splits admission.splits
      dest!: write_transfer_traced write_nonblocking_Proceed write_blocking_Proceed)

lemma read_via_traced:
  assumes "read_via rb (traced f) (s, False) count = Returned rb' (s', True) r"
  shows "r = - 1 \<and> m_counters rb' = m_counters rb"
  using assms
  by (auto simp: read_via_def rb_read_def read_admitted_def
      split: if_splits admission.splits
      dest!: read_transfer_traced read_nonblocking_Proceed read_blocking_Proceed)

section \<open>First in, first out\<close>

lemma length_pending [simp]:
  "length (pending rb) = unat (m_produced (m_counters rb) - m_consumed (m_counters rb))"
  by (simp add: pending_def)

lemma pending_cong:
  "m_buffer a = m_buffer b \<Longrightarrow> m_counters a = m_counters b \<Longrightarrow> m_capacity a = m_capacity b \<Longrightarrow>
   pending a = pending b"
  by (simp add: pending_def)

lemma write_move_step:
  assumes wf: "wf rb"
  shows "case write_move mf rb xs of
           Returned rb' xs' r \<Rightarrow> wf rb' \<and> pending rb' = pending rb @ take (nat r) xs
         | Parked rb' \<Rightarrow> wf rb' \<and> pending rb' = pending rb
         | Undefined \<Rightarrow> False"
proof -
  consider (zero) "of_nat (length xs) = (0::size_t)"
    | (bad) "of_nat (length xs) \<noteq> (0::size_t)" "\<not> counters_ok rb"
    | (full) "of_nat (length xs) \<noteq> (0::size_t)" "counters_ok rb"
        "m_produced (m_counters rb) - m_consumed (m_counters rb) = m_capacity rb"
    | (room) "of_nat (length xs) \<noteq> (0::size_t)" "counters_ok rb"
        "m_produced (m_counters rb) - m_consumed (m_counters rb) \<noteq> m_capacity rb"
    by blast
  then show ?thesis
  proof cases
    case zero
    then show ?thesis using wf by (simp add: write_move_zero)
  next
    case bad
    then show ?thesis using wf by (simp add: write_move_bad)
  next
    case full
    then show ?thesis using wf by (simp add: write_move_full)
  next
    case room
    define k where "k = min (unat (of_nat (length xs) :: size_t))
      (unat (m_capacity rb) - unat (m_produced (m_counters rb) - m_consumed (m_counters rb)))"
    define rb1 where "rb1 = rb\<lparr>m_buffer := ring_blit (m_buffer rb)
                        (unat (m_produced (m_counters rb)) mod unat (m_capacity rb)) xs k,
                     m_counters := (m_counters rb)\<lparr>m_produced := m_produced (m_counters rb) + of_nat k\<rparr>\<rparr>"
    have k: "k \<le> unat (m_capacity rb) - unat (m_produced (m_counters rb) - m_consumed (m_counters rb))"
      "k \<le> length xs"
      using unat_of_nat_length_le [of xs] by (simp_all add: k_def)
    note W = wf_facts [OF wf]
    have p1: "pending rb1 = pending rb @ take k xs"
      unfolding rb1_def by (rule pending_write [OF wf room(2) k])
    have "length (m_buffer rb1) = length (m_buffer rb)"
      using W k by (simp add: rb1_def length_ring_blit)
    then have w1: "wf rb1" using wf by (simp add: wf_def rb1_def)
    have res: "write_move mf rb xs = Returned
        (rb1\<lparr>m_reading_semaphore :=
            (if test (m_flags rb) RINGBUFFER_NONBLOCKING_READ_SHIFT then m_reading_semaphore rb
             else post (m_reading_semaphore rb))\<rparr>)
        (moved_from mf xs 0 k) (int k)"
      unfolding rb1_def k_def by (simp add: write_move_room [OF room(1) wf room(2,3)])
    show ?thesis
      unfolding res using p1 w1 by simp
  qed
qed

lemma read_move_step:
  assumes wf: "wf rb"
  shows "case read_move mf rb ys of
           Returned rb' ys' r \<Rightarrow> wf rb' \<and> take (nat r) ys' @ pending rb' = pending rb
         | Parked rb' \<Rightarrow> wf rb' \<and> pending rb' = pending rb
         | Undefined \<Rightarrow> False"
proof -
  consider (zero) "of_nat (length ys) = (0::size_t)"
    | (bad) "of_nat (length ys) \<noteq> (0::size_t)" "\<not> counters_ok rb"
    | (empty) "of_nat (length ys) \<noteq> (0::size_t)"
        "m_produced (m_counters rb) = m_consumed (m_counters rb)"
    | (data) "of_nat (length ys) \<noteq> (0::size_t)" "counters_ok rb"
        "m_produced (m_counters rb) \<noteq> m_consumed (m_counters rb)"
    by blast
  then show ?thesis
  proof cases
    case zero
    then show ?thesis using wf by (simp add: read_move_zero)
  next
    case bad
    then show ?thesis using wf by (simp add: read_move_bad)
  next
    case empty
    then show ?thesis using wf by (simp add: read_move_empty)
  next
    case data
    define k where "k = min (unat (of_nat (length ys) :: size_t))
      (unat (m_produced (m_counters rb) - m_consumed (m_counters rb)))"
    define rb1 where "rb1 = rb\<lparr>m_buffer := ring_moved mf (m_buffer rb)
                        (unat (m_consumed (m_counters rb)) mod unat (m_capacity rb)) k,
                     m_counters := (m_counters rb)\<lparr>m_consumed := m_consumed (m_counters rb) + of_nat k\<rparr>\<rparr>"
    have k: "k \<le> unat (m_produced (m_counters rb) - m_consumed (m_counters rb))"
      by (simp add: k_def)
    note W = wf_facts [OF wf]
    have cp: "m_consumed (m_counters rb) \<le> m_produced (m_counters rb)"
      "m_produced (m_counters rb) - m_consumed (m_counters rb) \<le> m_capacity rb"
      using data(2) by (simp_all add: counters_ok_def)
    have kC: "k \<le> unat (m_capacity rb)"
      using k free_facts [OF cp] by simp
    have p1: "pending rb1 = drop k (pending rb)"
      unfolding rb1_def by (rule pending_read [OF wf data(2) k])
    have "length (m_buffer rb1) = length (m_buffer rb)"
      using W kC by (simp add: rb1_def length_ring_moved)
    then have w1: "wf rb1" using wf by (simp add: wf_def rb1_def)
    have res: "read_move mf rb ys = Returned
        (rb1\<lparr>m_writing_semaphore :=
            (if test (m_flags rb) RINGBUFFER_NONBLOCKING_WRITE_SHIFT then m_writing_semaphore rb
             else post (m_writing_semaphore rb))\<rparr>)
        (take k (pending rb) @ drop k ys) (int k)"
      unfolding rb1_def k_def by (simp add: read_move_data [OF data(1) wf data(2,3)])
    show ?thesis
      unfolding res using p1 w1 k by simp
  qed
qed

lemma perform_step:
  assumes "wf rb"
  shows "case perform mf rb c of
           Returned rb' mem r \<Rightarrow>
             wf rb' \<and> delivered_by c mem r @ pending rb' = pending rb @ written_by c r
         | Parked rb' \<Rightarrow> wf rb' \<and> pending rb' = pending rb
         | Undefined \<Rightarrow> False"
proof (cases c)
  case (Write_copy xs)
  then show ?thesis
    using write_move_step [OF assms, where mf = "\<lambda>x. x" and xs = xs]
    by (simp add: write_copy_eq_move split: call.splits)
next
  case (Write_move xs)
  then show ?thesis
    using write_move_step [OF assms, where mf = mf and xs = xs] by (simp split: call.splits)
next
  case (Read_copy ys)
  then show ?thesis
    using read_move_step [OF assms, where mf = "\<lambda>x. x" and ys = ys]
    by (simp add: read_copy_eq_move split: call.splits)
next
  case (Read_move ys)
  then show ?thesis
    using read_move_step [OF assms, where mf = mf and ys = ys] by (simp split: call.splits)
qed

lemma run_invariant:
  "wf rb \<Longrightarrow> d @ pending rb = q @ w \<Longrightarrow> run mf (rb, w, d) calls = (rb', w', d') \<Longrightarrow>
   wf rb' \<and> d' @ pending rb' = q @ w'"
proof (induction calls arbitrary: rb w d)
  case Nil
  then show ?case by simp
next
  case (Cons c calls)
  show ?case
  proof (cases "perform mf rb c")
    case (Returned rb1 mem r)
    with perform_step [OF Cons.prems(1), where mf = mf and c = c]
    have 1: "wf rb1" "delivered_by c mem r @ pending rb1 = pending rb @ written_by c r"
      by simp_all
    have "(d @ delivered_by c mem r) @ pending rb1 = q @ (w @ written_by c r)"
      using 1(2) Cons.prems(2) by simp
    moreover have "run mf (rb1, w @ written_by c r, d @ delivered_by c mem r) calls = (rb', w', d')"
      using Cons.prems(3) Returned by simp
    ultimately show ?thesis
      using Cons.IH [OF 1(1)] by blast
  next
    case (Parked rb1)
    with perform_step [OF Cons.prems(1), where mf = mf and c = c] Cons.prems show ?thesis
      by auto
  next
    case Undefined
    with perform_step [OF Cons.prems(1), where mf = mf and c = c] show ?thesis by simp
  qed
qed

text \<open>
  C1. Let the array overloads of \<^verbatim>\<open>write\<close> and \<^verbatim>\<open>read\<close> (copying or moving, in
  any order and with arrays of any size) be called one after the other on a ring
  buffer that is well formed and empty at the start, in any of the four
  configurations. Then the concatenation \<open>d\<close> of the elements delivered by the
  reads is a prefix of the concatenation \<open>w\<close> of the elements transferred by the
  writes, and what is missing from \<open>d\<close> is exactly what is still pending in the
  ring buffer: nothing is lost, duplicated or reordered. Calls that return a
  negative status transfer nothing and are covered as well.
\<close>

theorem fifo_order:
  assumes "wf rb" "m_produced (m_counters rb) = m_consumed (m_counters rb)"
    and "run mf (rb, [], []) calls = (rb', w, d)"
  shows "prefix d w \<and> d @ pending rb' = w"
proof -
  have "pending rb = []" using assms(2) by (simp add: pending_def)
  then have "d @ pending rb' = w"
    using run_invariant [OF assms(1) _ assms(3), of "[]"] by simp
  then show ?thesis by (auto simp: prefix_def)
qed

theorem fifo_order_witness:
  "wf fresh4 \<and> m_produced (m_counters fresh4) = m_consumed (m_counters fresh4) \<and>
   snd (run (\<lambda>_. 0) (fresh4, [], [])
          [Write_copy [1, 2, 3], Read_copy [0, 0], Write_move [4, 5, 6, 7], Read_move [0, 0]])
     = ([1, 2, 3, 4, 5, 6], [1, 2, 3, 4]) \<and>
   prefix [1, 2, 3, 4] [1, 2, 3, 4, 5, 6 :: int]"
proof -
  have w: "wf fresh4"
    by (simp add: wf_def fresh4_def LONG_MAX_def)
  have e: "m_produced (m_counters fresh4) = m_consumed (m_counters fresh4)"
    by (simp add: fresh4_def)
  have s: "snd (run (\<lambda>_. 0) (fresh4, [], [])
          [Write_copy [1, 2, 3], Read_copy [0, 0], Write_move [4, 5, 6, 7], Read_move [0, 0]])
     = ([1, 2, 3, 4, 5, 6], [1, 2, 3, 4])"
    by code_simp
  then obtain rb' where r: "run (\<lambda>_. 0) (fresh4, [], [])
          [Write_copy [1, 2, 3], Read_copy [0, 0], Write_move [4, 5, 6, 7], Read_move [0, 0]]
     = (rb', [1, 2, 3, 4, 5, 6], [1, 2, 3, 4])"
    by (metis prod.collapse)
  from fifo_order [OF w e r] w e s show ?thesis by simp
qed

section \<open>Non-blocking writes of arrays\<close>

lemma count_of_length:
  assumes "0 < length xs" "length xs < 2 ^ 64"
  shows "unat (of_nat (length xs) :: size_t) = length xs" "of_nat (length xs) \<noteq> (0::size_t)"
proof -
  show 1: "unat (of_nat (length xs) :: size_t) = length xs"
    using assms(2) by (simp add: unat_of_nat)
  show "of_nat (length xs) \<noteq> (0::size_t)"
    using 1 assms(1) by (metis unat_0 less_numeral_extra(3))
qed

lemma write_move_nonblocking:
  fixes rb :: "'a ringbuffer"
  assumes wf: "wf rb" and ok: "counters_ok rb"
    and nb: "test (m_flags rb) RINGBUFFER_NONBLOCKING_WRITE_SHIFT"
    and n: "0 < length xs" "length xs < 2 ^ 64"
  defines "fill \<equiv> unat (m_produced (m_counters rb) - m_consumed (m_counters rb))"
    and "C \<equiv> unat (m_capacity rb)"
  shows "(fill = C \<longrightarrow>
            write_move mf rb xs =
              Returned (rb\<lparr>m_counters := (m_counters rb)\<lparr>m_dropped := m_dropped (m_counters rb) + 1\<rparr>\<rparr>)
                xs (status_long WOULD_BLOCK)) \<and>
         (fill \<noteq> C \<longrightarrow>
            (case write_move mf rb xs of
               Returned rb' xs' r \<Rightarrow>
                 r = int (min (length xs) (C - fill)) \<and>
                 pending rb' = pending rb @ take (min (length xs) (C - fill)) xs \<and>
                 m_produced (m_counters rb') =
                   m_produced (m_counters rb) + of_nat (min (length xs) (C - fill)) \<and>
                 m_consumed (m_counters rb') = m_consumed (m_counters rb) \<and>
                 m_dropped (m_counters rb') = m_dropped (m_counters rb)
             | Parked rb' \<Rightarrow> False
             | Undefined \<Rightarrow> False))"
proof (cases "fill = C")
  case True
  then have "m_produced (m_counters rb) - m_consumed (m_counters rb) = m_capacity rb"
    by (simp add: fill_def C_def word_unat_eq_iff)
  then show ?thesis
    using True nb by (simp add: write_move_full [OF count_of_length(2) [OF n] ok])
next
  case False
  then have room: "m_produced (m_counters rb) - m_consumed (m_counters rb) \<noteq> m_capacity rb"
    by (auto simp: fill_def C_def)
  define k where "k = min (length xs) (C - fill)"
  define rb1 where "rb1 = rb\<lparr>m_buffer := ring_blit (m_buffer rb)
                        (unat (m_produced (m_counters rb)) mod unat (m_capacity rb)) xs k,
                     m_counters := (m_counters rb)\<lparr>m_produced := m_produced (m_counters rb) + of_nat k\<rparr>\<rparr>"
  have k: "k \<le> unat (m_capacity rb) - unat (m_produced (m_counters rb) - m_consumed (m_counters rb))"
    "k \<le> length xs"
    by (simp_all add: k_def C_def fill_def)
  have k': "min (unat (of_nat (length xs) :: size_t))
      (unat (m_capacity rb) - unat (m_produced (m_counters rb) - m_consumed (m_counters rb))) = k"
    by (simp add: k_def C_def fill_def count_of_length(1) [OF n])
  have p1: "pending rb1 = pending rb @ take k xs"
    unfolding rb1_def by (rule pending_write [OF wf ok k])
  have res: "write_move mf rb xs = Returned
      (rb1\<lparr>m_reading_semaphore :=
          (if test (m_flags rb) RINGBUFFER_NONBLOCKING_READ_SHIFT then m_reading_semaphore rb
           else post (m_reading_semaphore rb))\<rparr>)
      (moved_from mf xs 0 k) (int k)"
    unfolding rb1_def
    by (simp add: write_move_room [OF count_of_length(2) [OF n] wf ok room] k')
  have "m_produced (m_counters rb1) = m_produced (m_counters rb) + of_nat k"
    "m_consumed (m_counters rb1) = m_consumed (m_counters rb)"
    "m_dropped (m_counters rb1) = m_dropped (m_counters rb)"
    by (simp_all add: rb1_def)
  then show ?thesis
    unfolding res using False p1 by (simp add: k_def)
qed

lemma partial_write_scenario:
  "case ringbuffer_new (0::int) 2 RINGBUFFER_RD_NONBLOCKING_WR_NONBLOCKING of
     Some rb0 \<Rightarrow>
       (case write_copy rb0 [1, 2, 3, 4] of
          Returned rb' xs' r \<Rightarrow>
            r = 2 \<and> m_buffer rb' = [1, 2] \<and>
            m_dropped (m_counters rb') = m_dropped (m_counters rb0)
        | Parked rb' \<Rightarrow> False
        | Undefined \<Rightarrow> False)
   | None \<Rightarrow> False"
  by code_simp

section \<open>Round trips\<close>

lemma write_move_room_props:
  fixes rb :: "'a ringbuffer"
  assumes cnt: "of_nat (length xs) \<noteq> (0::size_t)" and wf: "wf rb" and ok: "counters_ok rb"
    and room: "m_produced (m_counters rb) - m_consumed (m_counters rb) \<noteq> m_capacity rb"
  defines "k \<equiv> min (unat (of_nat (length xs) :: size_t))
      (unat (m_capacity rb) - unat (m_produced (m_counters rb) - m_consumed (m_counters rb)))"
  obtains rb' where
    "write_move mf rb xs = Returned rb' (moved_from mf xs 0 k) (int k)"
    "wf rb'" "pending rb' = pending rb @ take k xs"
    "m_counters rb' = (m_counters rb)\<lparr>m_produced := m_produced (m_counters rb) + of_nat k\<rparr>"
    "m_buffer rb' = ring_blit (m_buffer rb)
       (unat (m_produced (m_counters rb)) mod unat (m_capacity rb)) xs k"
    "m_capacity rb' = m_capacity rb" "m_flags rb' = m_flags rb"
    "m_writing_semaphore rb' = m_writing_semaphore rb"
    "m_is_writing_cancelled rb' = m_is_writing_cancelled rb"
    "m_is_reading_cancelled rb' = m_is_reading_cancelled rb"
proof -
  define rb1 where "rb1 = rb\<lparr>m_buffer := ring_blit (m_buffer rb)
                        (unat (m_produced (m_counters rb)) mod unat (m_capacity rb)) xs k,
                     m_counters := (m_counters rb)\<lparr>m_produced := m_produced (m_counters rb) + of_nat k\<rparr>\<rparr>"
  define rb' where "rb' = rb1\<lparr>m_reading_semaphore :=
          (if test (m_flags rb) RINGBUFFER_NONBLOCKING_READ_SHIFT then m_reading_semaphore rb
           else post (m_reading_semaphore rb))\<rparr>"
  have k: "k \<le> unat (m_capacity rb) - unat (m_produced (m_counters rb) - m_consumed (m_counters rb))"
    "k \<le> length xs"
    using unat_of_nat_length_le [of xs] by (simp_all add: k_def)
  note W = wf_facts [OF wf]
  have p1: "pending rb1 = pending rb @ take k xs"
    unfolding rb1_def by (rule pending_write [OF wf ok k])
  have "length (m_buffer rb1) = length (m_buffer rb)"
    using W k by (simp add: rb1_def length_ring_blit)
  then have w1: "wf rb1" using wf by (simp add: wf_def rb1_def)
  have res: "write_move mf rb xs = Returned rb' (moved_from mf xs 0 k) (int k)"
    unfolding rb'_def rb1_def k_def by (simp add: write_move_room [OF cnt wf ok room])
  show ?thesis
  proof (rule that [of rb'])
    show "write_move mf rb xs = Returned rb' (moved_from mf xs 0 k) (int k)" by (rule res)
    show "wf rb'" using w1 by (simp add: rb'_def)
    show "pending rb' = pending rb @ take k xs" using p1 by (simp add: rb'_def)
  qed (simp_all add: rb'_def rb1_def)
qed

lemma read_move_data_props:
  fixes rb :: "'a ringbuffer"
  assumes cnt: "of_nat (length ys) \<noteq> (0::size_t)" and wf: "wf rb" and ok: "counters_ok rb"
    and data: "m_produced (m_counters rb) \<noteq> m_consumed (m_counters rb)"
  defines "k \<equiv> min (unat (of_nat (length ys) :: size_t))
      (unat (m_produced (m_counters rb) - m_consumed (m_counters rb)))"
  obtains rb' where
    "read_move mf rb ys = Returned rb' (take k (pending rb) @ drop k ys) (int k)"
    "wf rb'" "pending rb' = drop k (pending rb)"
    "m_counters rb' = (m_counters rb)\<lparr>m_consumed := m_consumed (m_counters rb) + of_nat k\<rparr>"
    "m_capacity rb' = m_capacity rb" "m_flags rb' = m_flags rb"
    "m_reading_semaphore rb' = m_reading_semaphore rb"
    "m_is_writing_cancelled rb' = m_is_writing_cancelled rb"
    "m_is_reading_cancelled rb' = m_is_reading_cancelled rb"
proof -
  define rb1 where "rb1 = rb\<lparr>m_buffer := ring_moved mf (m_buffer rb)
                        (unat (m_consumed (m_counters rb)) mod unat (m_capacity rb)) k,
                     m_counters := (m_counters rb)\<lparr>m_consumed := m_consumed (m_counters rb) + of_nat k\<rparr>\<rparr>"
  define rb' where "rb' = rb1\<lparr>m_writing_semaphore :=
          (if test (m_flags rb) RINGBUFFER_NONBLOCKING_WRITE_SHIFT then m_writing_semaphore rb
           else post (m_writing_semaphore rb))\<rparr>"
  have k: "k \<le> unat (m_produced (m_counters rb) - m_consumed (m_counters rb))"
    by (simp add: k_def)
  note W = wf_facts [OF wf]
  have cp: "m_consumed (m_counters rb) \<le> m_produced (m_counters rb)"
    "m_produced (m_counters rb) - m_consumed (m_counters rb) \<le> m_capacity rb"
    using ok by (simp_all add: counters_ok_def)
  have kC: "k \<le> unat (m_capacity rb)"
    using k free_facts [OF cp] by simp
  have p1: "pending rb1 = drop k (pending rb)"
    unfolding rb1_def by (rule pending_read [OF wf ok k])
  have "length (m_buffer rb1) = length (m_buffer rb)"
    using W kC by (simp add: rb1_def length_ring_moved)
  then have w1: "wf rb1" using wf by (simp add: wf_def rb1_def)
  have res: "read_move mf rb ys = Returned rb' (take k (pending rb) @ drop k ys) (int k)"
    unfolding rb'_def rb1_def k_def by (simp add: read_move_data [OF cnt wf ok data])
  show ?thesis
  proof (rule that [of rb'])
    show "read_move mf rb ys = Returned rb' (take k (pending rb) @ drop k ys) (int k)"
      by (rule res)
    show "wf rb'" using w1 by (simp add: rb'_def)
    show "pending rb' = drop k (pending rb)" using p1 by (simp add: rb'_def)
  qed (simp_all add: rb'_def rb1_def)
qed

lemma ringbuffer_new_props:
  assumes "ringbuffer_new dflt cap flags = Some rb"
  shows "wf rb" "counters_ok rb" "pending rb = []"
    "m_counters rb = \<lparr>m_produced = 0, m_consumed = 0, m_dropped = 0\<rparr>"
    "m_capacity rb = cap" "m_flags rb = flags" "0 < cap" "cap < LONG_MAX"
  using assms
  by (auto simp: ringbuffer_new_def wf_def counters_ok_def pending_def split: if_splits)

lemma round_trip_move:
  fixes rb :: "'a ringbuffer"
  assumes fresh: "ringbuffer_new dflt cap flags = Some rb"
    and len: "length xs \<le> unat cap" "length ys = length xs"
  shows "case write_move mf1 rb xs of
           Returned rb1 xs1 r1 \<Rightarrow>
             r1 = int (length xs) \<and>
             (\<forall>k<length xs. m_buffer rb1 ! (k mod unat cap) = xs ! k) \<and>
             (case read_move mf2 rb1 ys of
                Returned rb2 ys2 r2 \<Rightarrow>
                  r2 = int (length xs) \<and> ys2 = xs \<and>
                  m_dropped (m_counters rb2) = m_dropped (m_counters rb) \<and>
                  m_produced (m_counters rb2) = of_nat (length xs) \<and>
                  m_consumed (m_counters rb2) = of_nat (length xs)
              | Parked rb2 \<Rightarrow> False
              | Undefined \<Rightarrow> False)
         | Parked rb1 \<Rightarrow> False
         | Undefined \<Rightarrow> False"
proof (cases "length xs = 0")
  case True
  then show ?thesis
    using len ringbuffer_new_props(4) [OF fresh]
    by (simp add: write_move_zero read_move_zero)
next
  case False
  note N = ringbuffer_new_props [OF fresh]
  note W = wf_facts [OF N(1)]
  have n: "0 < length xs" "length xs < 2 ^ 64"
    using False len W N(5) by simp_all
  note cnt = count_of_length [OF n]
  have cnty: "of_nat (length ys) \<noteq> (0::size_t)" using cnt(2) len(2) by simp
  have room: "m_produced (m_counters rb) - m_consumed (m_counters rb) \<noteq> m_capacity rb"
    using N(4,5,7) by simp
  have k: "min (unat (of_nat (length xs) :: size_t))
      (unat (m_capacity rb) - unat (m_produced (m_counters rb) - m_consumed (m_counters rb)))
      = length xs"
    using len N(4,5) by (simp add: cnt(1))
  obtain rb1 where 1:
    "write_move mf1 rb xs = Returned rb1 (moved_from mf1 xs 0 (length xs)) (int (length xs))"
    "wf rb1" "pending rb1 = pending rb @ take (length xs) xs"
    "m_counters rb1 = (m_counters rb)\<lparr>m_produced := m_produced (m_counters rb) + of_nat (length xs)\<rparr>"
    "m_buffer rb1 = ring_blit (m_buffer rb)
       (unat (m_produced (m_counters rb)) mod unat (m_capacity rb)) xs (length xs)"
    "m_capacity rb1 = m_capacity rb"
    using write_move_room_props [OF cnt(2) N(1,2) room, of mf1] unfolding k by metis
  have c1: "m_counters rb1 = \<lparr>m_produced = of_nat (length xs), m_consumed = 0, m_dropped = 0\<rparr>"
    using 1(4) N(4) by simp
  have ok1: "counters_ok rb1"
    using len(1) by (simp add: counters_ok_def c1 1(6) N(5) word_le_nat_alt cnt(1))
  have data: "m_produced (m_counters rb1) \<noteq> m_consumed (m_counters rb1)"
    using cnt(2) by (simp add: c1)
  have k2: "min (unat (of_nat (length ys) :: size_t))
      (unat (m_produced (m_counters rb1) - m_consumed (m_counters rb1))) = length xs"
    by (simp add: c1 len(2) cnt(1))
  obtain rb2 where 2:
    "read_move mf2 rb1 ys =
       Returned rb2 (take (length xs) (pending rb1) @ drop (length xs) ys) (int (length xs))"
    "m_counters rb2 = (m_counters rb1)\<lparr>m_consumed := m_consumed (m_counters rb1) + of_nat (length xs)\<rparr>"
    using read_move_data_props [OF cnty 1(2) ok1 data, of mf2] unfolding k2 by metis
  have slots: "m_buffer rb1 ! (i mod unat cap) = xs ! i" if "i < length xs" for i
  proof -
    have "ring_blit (m_buffer rb) 0 xs (length xs) ! ((0 + i) mod length (m_buffer rb)) = xs ! i"
      using that len W N(5) by (intro ring_blit_written) simp_all
    then show ?thesis using W N(4,5) by (simp add: 1(5))
  qed
  show ?thesis
    unfolding 1(1) using slots len(2) N(3,4)
    by (simp add: 2 1(3) c1)
qed

lemma wrap_around_scenario:
  "case ringbuffer_new (0::int) 4 RINGBUFFER_RD_BLOCKING_WR_NONBLOCKING of
     Some rb0 \<Rightarrow>
       (case write_copy rb0 [1, 2, 3] of
          Returned rb1 xs1 r1 \<Rightarrow>
            r1 = 3 \<and> m_buffer rb1 = [1, 2, 3, 0] \<and>
            (case read_copy rb1 [0, 0, 0] of
               Returned rb2 ys2 r2 \<Rightarrow>
                 r2 = 3 \<and> ys2 = [1, 2, 3] \<and>
                 (case write_copy rb2 [4, 5, 6, 7] of
                    Returned rb3 xs3 r3 \<Rightarrow>
                      r3 = 4 \<and> m_buffer rb3 = [5, 6, 7, 4] \<and>
                      (case read_copy rb3 [0, 0, 0, 0] of
                         Returned rb4 ys4 r4 \<Rightarrow>
                           r4 = 4 \<and> ys4 = [4, 5, 6, 7] \<and>
                           m_produced (m_counters rb4) = 7 \<and>
                           m_consumed (m_counters rb4) = 7 \<and>
                           m_dropped (m_counters rb4) = 0
                       | Parked rb4 \<Rightarrow> False
                       | Undefined \<Rightarrow> False)
                  | Parked rb3 \<Rightarrow> False
                  | Undefined \<Rightarrow> False)
             | Parked rb2 \<Rightarrow> False
             | Undefined \<Rightarrow> False)
        | Parked rb1 \<Rightarrow> False
        | Undefined \<Rightarrow> False)
   | None \<Rightarrow> False"
  by code_simp

text \<open>
  C4. On a freshly constructed ring buffer of capacity at least \<open>N\<close>, in any of
  the four configurations, writing an array of \<open>N\<close> elements and then reading
  into an array of \<open>N\<close> elements (both copying, or both moving) returns \<open>N\<close>
  twice, the output array equals the input array, \<^verbatim>\<open>m_dropped\<close> is unchanged and
  \<^verbatim>\<open>m_produced = m_consumed = N\<close>; after the write, element number \<open>k\<close> lies in
  cell \<open>k mod capacity\<close>. On a fresh ring buffer of capacity 4, write 3, read 3,
  write 4, read 4 returns every value in order, ends with
  \<^verbatim>\<open>m_produced = m_consumed = 7\<close>, and the second write has stored its elements
  into cells 3, 0, 1, 2.
\<close>

theorem round_trip:
  fixes rb :: "'a ringbuffer"
  assumes fresh: "ringbuffer_new dflt cap flags = Some rb"
    and len: "length xs \<le> unat cap" "length ys = length xs"
  defines "round_trips \<equiv> \<lambda>written rd.
      (case written of
         Returned rb1 xs1 r1 \<Rightarrow>
           r1 = int (length xs) \<and>
           (\<forall>k<length xs. m_buffer rb1 ! (k mod unat cap) = xs ! k) \<and>
           (case rd rb1 of
              Returned rb2 ys2 r2 \<Rightarrow>
                r2 = int (length xs) \<and> ys2 = xs \<and>
                m_dropped (m_counters rb2) = m_dropped (m_counters rb) \<and>
                m_produced (m_counters rb2) = of_nat (length xs) \<and>
                m_consumed (m_counters rb2) = of_nat (length xs)
            | Parked rb2 \<Rightarrow> False
            | Undefined \<Rightarrow> False)
       | Parked rb1 \<Rightarrow> False
       | Undefined \<Rightarrow> False)"
  shows "round_trips (write_copy rb xs) (\<lambda>rb1. read_copy rb1 ys) \<and>
         round_trips (write_move mf rb xs) (\<lambda>rb1. read_move mf rb1 ys) \<and>
         (case ringbuffer_new (0::int) 4 RINGBUFFER_RD_BLOCKING_WR_NONBLOCKING of
            Some rb0 \<Rightarrow>
              (case write_copy rb0 [1, 2, 3] of
                 Returned rb1 xs1 r1 \<Rightarrow>
                   r1 = 3 \<and> m_buffer rb1 = [1, 2, 3, 0] \<and>
                   (case read_copy rb1 [0, 0, 0] of
                      Returned rb2 ys2 r2 \<Rightarrow>
                        r2 = 3 \<and> ys2 = [1, 2, 3] \<and>
                        (case write_copy rb2 [4, 5, 6, 7] of
                           Returned rb3 xs3 r3 \<Rightarrow>
                             r3 = 4 \<and> m_buffer rb3 = [5, 6, 7, 4] \<and>
                             (case read_copy rb3 [0, 0, 0, 0] of
                                Returned rb4 ys4 r4 \<Rightarrow>
                                  r4 = 4 \<and> ys4 = [4, 5, 6, 7] \<and>
                                  m_produced (m_counters rb4) = 7 \<and>
                                  m_consumed (m_counters rb4) = 7 \<and>
                                  m_dropped (m_counters rb4) = 0
                              | Parked rb4 \<Rightarrow> False
                              | Undefined \<Rightarrow> False)
                         | Parked rb3 \<Rightarrow> False
                         | Undefined \<Rightarrow> False)
                    | Parked rb2 \<Rightarrow> False
                    | Undefined \<Rightarrow> False)
               | Parked rb1 \<Rightarrow> False
               | Undefined \<Rightarrow> False)
          | None \<Rightarrow> False)"
  using round_trip_move [OF fresh len, where ?mf1.0 = mf and ?mf2.0 = mf]
    round_trip_move [OF fresh len, where ?mf1.0 = "\<lambda>x. x" and ?mf2.0 = "\<lambda>x. x"]
    wrap_around_scenario
  unfolding round_trips_def write_copy_eq_move read_copy_eq_move
  by blast

theorem round_trip_witness:
  "ringbuffer_new 0 4 RINGBUFFER_RD_NONBLOCKING_WR_NONBLOCKING = Some fresh4 \<and>
   length [1, 2, 3 :: int] \<le> unat (4 :: size_t) \<and>
   (case write_copy fresh4 [1, 2, 3] of
      Returned rb1 xs1 r1 \<Rightarrow>
        r1 = 3 \<and>
        (case read_copy rb1 [0, 0, 0] of
           Returned rb2 ys2 r2 \<Rightarrow>
             r2 = 3 \<and> ys2 = [1, 2, 3] \<and> m_dropped (m_counters rb2) = 0 \<and>
             m_produced (m_counters rb2) = 3 \<and> m_consumed (m_counters rb2) = 3
         | Parked rb2 \<Rightarrow> False
         | Undefined \<Rightarrow> False)
    | Parked rb1 \<Rightarrow> False
    | Undefined \<Rightarrow> False)"
proof -
  have f: "ringbuffer_new 0 4 RINGBUFFER_RD_NONBLOCKING_WR_NONBLOCKING = Some fresh4"
    by code_simp
  have l: "length [1, 2, 3 :: int] \<le> unat (4 :: size_t)"
    "length [0, 0, 0 :: int] = length [1, 2, 3 :: int]"
    by simp_all
  have d: "m_dropped (m_counters fresh4) = 0" by code_simp
  show ?thesis
    using round_trip [OF f l, where mf = "\<lambda>x. x", THEN conjunct1] f l(1)
    by (auto simp: d split: call.splits)
qed

section \<open>Reset\<close>

lemma reset_PRODUCER:
  "reset PRODUCER rb =
     rb\<lparr>m_counters := (m_counters rb)\<lparr>m_produced := m_consumed (m_counters rb), m_dropped := 0\<rparr>\<rparr>"
  by (simp add: reset_def Let_def)

lemma reset_CONSUMER:
  "reset CONSUMER rb =
     rb\<lparr>m_counters := (m_counters rb)\<lparr>m_consumed := m_produced (m_counters rb)\<rparr>\<rparr>"
  by (simp add: reset_def Let_def)

lemma write_after_reset:
  fixes rb :: "'a ringbuffer"
  assumes wf: "wf rb" and len: "length xs < 2 ^ 64"
  shows "case write_move mf (reset PRODUCER rb) xs of
           Returned rb' xs' k \<Rightarrow>
             k = int (min (length xs) (unat (m_capacity rb))) \<and>
             m_produced (m_counters rb') = m_consumed (m_counters rb) + of_nat (nat k)
         | Parked rb' \<Rightarrow> False
         | Undefined \<Rightarrow> False"
proof (cases "length xs = 0")
  case True
  then show ?thesis
    by (simp add: write_move_zero reset_PRODUCER)
next
  case False
  define rb0 where "rb0 = reset PRODUCER rb"
  have c0: "m_counters rb0 = (m_counters rb)\<lparr>m_produced := m_consumed (m_counters rb), m_dropped := 0\<rparr>"
    "m_capacity rb0 = m_capacity rb"
    by (simp_all add: rb0_def reset_PRODUCER)
  have wf0: "wf rb0" using wf by (simp add: rb0_def reset_PRODUCER)
  have ok0: "counters_ok rb0" by (simp add: counters_ok_def c0)
  note W = wf_facts [OF wf]
  have room: "m_produced (m_counters rb0) - m_consumed (m_counters rb0) \<noteq> m_capacity rb0"
    using W(4) by (simp add: c0)
  from False have n: "0 < length xs" by simp
  note cnt = count_of_length [OF n len]
  have k: "min (unat (of_nat (length xs) :: size_t))
      (unat (m_capacity rb0) - unat (m_produced (m_counters rb0) - m_consumed (m_counters rb0)))
      = min (length xs) (unat (m_capacity rb))"
    by (simp add: cnt(1) c0)
  obtain rb' where 1:
    "write_move mf rb0 xs = Returned rb'
       (moved_from mf xs 0 (min (length xs) (unat (m_capacity rb))))
       (int (min (length xs) (unat (m_capacity rb))))"
    "m_counters rb' = (m_counters rb0)\<lparr>m_produced := m_produced (m_counters rb0)
        + of_nat (min (length xs) (unat (m_capacity rb)))\<rparr>"
    using write_move_room_props [OF cnt(2) wf0 ok0 room, of mf] unfolding k by metis
  show ?thesis
    unfolding rb0_def [symmetric] 1(1) by (simp add: 1(2) c0)
qed

text \<open>
  C7. \<^verbatim>\<open>reset(PRODUCER)\<close> sets \<^verbatim>\<open>m_produced\<close> to the current \<^verbatim>\<open>m_consumed\<close> and
  \<^verbatim>\<open>m_dropped\<close> to 0 and changes nothing else, in particular not \<^verbatim>\<open>m_consumed\<close>;
  \<^verbatim>\<open>reset(CONSUMER)\<close> sets \<^verbatim>\<open>m_consumed\<close> to the current \<^verbatim>\<open>m_produced\<close> and
  changes nothing else. On a well-formed ring buffer a write that follows a
  producer reset returns the number \<open>k\<close> of elements it has written (all of them
  when the array fits the capacity) and leaves \<^verbatim>\<open>m_produced\<close> equal to the
  \<^verbatim>\<open>m_consumed\<close> from before the reset plus \<open>k\<close>.
\<close>

theorem reset_counters:
  fixes rb :: "'a ringbuffer"
  assumes wf: "wf rb" and len: "length xs < 2 ^ 64"
  defines "advanced \<equiv> \<lambda>res.
      (case res of
         Returned rb' xs' k \<Rightarrow>
           k = int (min (length xs) (unat (m_capacity rb))) \<and>
           m_produced (m_counters rb') = m_consumed (m_counters rb) + of_nat (nat k)
       | Parked rb' \<Rightarrow> False
       | Undefined \<Rightarrow> False)"
  shows "reset PRODUCER rb =
           rb\<lparr>m_counters := (m_counters rb)\<lparr>m_produced := m_consumed (m_counters rb),
                                                m_dropped := 0\<rparr>\<rparr> \<and>
         reset CONSUMER rb =
           rb\<lparr>m_counters := (m_counters rb)\<lparr>m_consumed := m_produced (m_counters rb)\<rparr>\<rparr> \<and>
         advanced (write_copy (reset PRODUCER rb) xs) \<and>
         advanced (write_move mf (reset PRODUCER rb) xs)"
  using write_after_reset [OF wf len, where mf = mf]
    write_after_reset [OF wf len, where mf = "\<lambda>x. x"]
  unfolding advanced_def write_copy_eq_move
  by (simp add: reset_PRODUCER reset_CONSUMER)

theorem reset_counters_witness:
  "wf loaded4 \<and> length [7, 8 :: int] < 2 ^ 64 \<and>
   m_counters (reset PRODUCER loaded4) = \<lparr>m_produced = 0, m_consumed = 0, m_dropped = 0\<rparr> \<and>
   m_counters (reset CONSUMER loaded4) = \<lparr>m_produced = 3, m_consumed = 3, m_dropped = 0\<rparr> \<and>
   (case write_copy (reset PRODUCER loaded4) [7, 8] of
      Returned rb' xs' k \<Rightarrow> k = 2 \<and> m_produced (m_counters rb') = 2
    | Parked rb' \<Rightarrow> False
    | Undefined \<Rightarrow> False)"
proof -
  have w: "wf loaded4" by code_simp
  have l: "length [7, 8 :: int] < 2 ^ 64" by simp
  have c: "m_counters loaded4 = \<lparr>m_produced = 3, m_consumed = 0, m_dropped = 0\<rparr>"
    "unat (m_capacity loaded4) = 4"
    by code_simp+
  show ?thesis
    using reset_counters [OF w l, where mf = "\<lambda>x. x"] w
    by (auto simp: c split: call.splits)
qed

section \<open>A cancelled blocking read\<close>

lemma cancel_CONSUMER_blocking:
  "\<not> test (m_flags rb) RINGBUFFER_NONBLOCKING_READ_SHIFT \<Longrightarrow>
   cancel CONSUMER rb =
     rb\<lparr>m_is_reading_cancelled := True, m_reading_semaphore := post (m_reading_semaphore rb)\<rparr>"
  by (simp add: cancel_def Let_def)

lemma rb_read_empty_blocking:
  assumes "count \<noteq> 0" "\<not> test (m_flags rb) RINGBUFFER_NONBLOCKING_READ_SHIFT"
    "m_produced (m_counters rb) = m_consumed (m_counters rb)"
  shows "rb_read xfer advance rb mem data count =
    (if m_ready (m_reading_semaphore rb) then
       (if m_is_reading_cancelled rb then
          Returned (rb\<lparr>m_reading_semaphore := (m_reading_semaphore rb)\<lparr>m_ready := False\<rparr>,
                      m_is_reading_cancelled := False\<rparr>) mem (status_long OPERATION_CANCELLED)
        else Parked (rb\<lparr>m_reading_semaphore := (m_reading_semaphore rb)\<lparr>m_ready := False\<rparr>\<rparr>))
     else Parked rb)"
  using assms by (simp add: rb_read_def read_admitted_def read_blocking_empty)

lemma read_resume_empty:
  assumes "m_produced (m_counters rb) = m_consumed (m_counters rb)"
  shows "read_resume xfer advance rb mem data count =
    (if m_ready (m_reading_semaphore rb) then
       (if m_is_reading_cancelled rb then
          Returned (rb\<lparr>m_reading_semaphore := (m_reading_semaphore rb)\<lparr>m_ready := False\<rparr>,
                      m_is_reading_cancelled := False\<rparr>) mem (status_long OPERATION_CANCELLED)
        else Parked (rb\<lparr>m_reading_semaphore := (m_reading_semaphore rb)\<lparr>m_ready := False\<rparr>\<rparr>))
     else Parked rb)"
  using assms
  by (simp add: read_resume_def read_admitted_def read_blocking_at_wait read_blocking_empty)

lemma word_less_succ:
  fixes p :: size_t
  assumes "p + 1 \<noteq> 0"
  shows "p \<le> p + 1" "p + 1 - p = 1"
proof -
  have "unat p + 1 < 2 ^ LENGTH(64)"
  proof (rule ccontr)
    assume "\<not> unat p + 1 < 2 ^ LENGTH(64)"
    moreover have "unat p < 2 ^ LENGTH(64)" by (rule unsigned_less)
    ultimately have "unat p + 1 = 2 ^ LENGTH(64)" by linarith
    then have "of_nat (unat p + 1) = (0::size_t)" by (metis of_nat_2p)
    then show False using assms by (simp add: add.commute)
  qed
  then have "unat (p + 1) = unat p + 1"
    by (simp add: unat_add_lem [THEN iffD1])
  then show "p \<le> p + 1" by (simp add: word_le_nat_alt)
  show "p + 1 - p = 1" by simp
qed

lemma write_one_read_one:
  fixes rb :: "'a ringbuffer"
  assumes wf: "wf rb" and empty: "m_produced (m_counters rb) = m_consumed (m_counters rb)"
    and nowrap: "m_produced (m_counters rb) + 1 \<noteq> 0"
  shows "case write_move mf1 rb [x] of
           Returned rb2 xs2 r \<Rightarrow>
             r = 1 \<and>
             (case read_move mf2 rb2 [y] of
                Returned rb3 ys r' \<Rightarrow> r' = 1 \<and> ys = [x]
              | Parked rb3 \<Rightarrow> False
              | Undefined \<Rightarrow> False)
         | Parked rb2 \<Rightarrow> False
         | Undefined \<Rightarrow> False"
proof -
  note W = wf_facts [OF wf]
  have one: "of_nat (length [x]) \<noteq> (0::size_t)" "of_nat (length [y]) \<noteq> (0::size_t)" by simp_all
  have ok: "counters_ok rb" using empty by (simp add: counters_ok_def)
  have room: "m_produced (m_counters rb) - m_consumed (m_counters rb) \<noteq> m_capacity rb"
    using W(4) empty by simp
  have k: "min (unat (of_nat (length [x]) :: size_t))
      (unat (m_capacity rb) - unat (m_produced (m_counters rb) - m_consumed (m_counters rb))) = 1"
    using W(1) empty by simp
  obtain rb2 where 1:
    "write_move mf1 rb [x] = Returned rb2 (moved_from mf1 [x] 0 1) (int 1)"
    "wf rb2" "pending rb2 = pending rb @ take 1 [x]"
    "m_counters rb2 = (m_counters rb)\<lparr>m_produced := m_produced (m_counters rb) + of_nat 1\<rparr>"
    "m_capacity rb2 = m_capacity rb"
    using write_move_room_props [OF one(1) wf ok room, of mf1] unfolding k by metis
  have "1 \<le> m_capacity rb" using W(1) by (simp add: word_le_nat_alt)
  then have ok2: "counters_ok rb2"
    using word_less_succ [OF nowrap] empty by (simp add: counters_ok_def 1(4,5))
  have data: "m_produced (m_counters rb2) \<noteq> m_consumed (m_counters rb2)"
    using empty by (simp add: 1(4))
  have k2: "min (unat (of_nat (length [y]) :: size_t))
      (unat (m_produced (m_counters rb2) - m_consumed (m_counters rb2))) = 1"
    using empty by (simp add: 1(4))
  obtain rb3 where 2:
    "read_move mf2 rb2 [y] = Returned rb3 (take 1 (pending rb2) @ drop 1 [y]) (int 1)"
    using read_move_data_props [OF one(2) 1(2) ok2 data, of mf2] unfolding k2 by metis
  have "pending rb = []" using empty by (simp add: pending_def)
  then show ?thesis
    unfolding 1(1) by (simp add: 2 1(3))
qed

text \<open>
  C3. Let the reads of a well-formed ring buffer be blocking, let the ring
  buffer be empty and let \<^verbatim>\<open>m_produced\<close> be below its maximum. Whatever the
  transfer function and the count \<open>> 0\<close>: a read that starts after
  \<^verbatim>\<open>cancel(CONSUMER)\<close> returns \<^verbatim>\<open>OPERATION_CANCELLED = -3\<close>, and so does a reader
  that was parked in \<^verbatim>\<open>wait()\<close> when \<^verbatim>\<open>cancel(CONSUMER)\<close> was issued and goes on
  from there; both leave the reading-cancelled flag and the reading semaphore
  clear and everything else as it was. The status is returned once: the next
  read of the still empty ring buffer parks. After a write of one element the
  next read returns 1 and delivers that element.
\<close>

theorem cancelled_read:
  fixes rb :: "'a ringbuffer"
  assumes blocking: "\<not> test (m_flags rb) RINGBUFFER_NONBLOCKING_READ_SHIFT"
    and empty: "m_produced (m_counters rb) = m_consumed (m_counters rb)"
    and count: "count \<noteq> 0"
    and wf: "wf rb" and nowrap: "m_produced (m_counters rb) + 1 \<noteq> 0"
  defines "cancelled \<equiv>
      rb\<lparr>m_reading_semaphore := (m_reading_semaphore rb)\<lparr>m_ready := False\<rparr>,
         m_is_reading_cancelled := False\<rparr>"
  defines "delivers \<equiv> \<lambda>x written rd.
      (case written of
         Returned rb2 xs2 r \<Rightarrow>
           r = 1 \<and>
           (case rd rb2 of
              Returned rb3 ys r' \<Rightarrow> r' = 1 \<and> ys = [x]
            | Parked rb3 \<Rightarrow> False
            | Undefined \<Rightarrow> False)
       | Parked rb2 \<Rightarrow> False
       | Undefined \<Rightarrow> False)"
  shows "rb_read xfer advance (cancel CONSUMER rb) mem data count
           = Returned cancelled mem (status_long OPERATION_CANCELLED) \<and>
         (\<forall>parked. rb_read xfer advance rb mem data count = Parked parked \<longrightarrow>
            read_resume xfer advance (cancel CONSUMER parked) mem data count
              = Returned cancelled mem (status_long OPERATION_CANCELLED)) \<and>
         rb_read xfer advance cancelled mem data count = Parked cancelled \<and>
         delivers x (write_copy cancelled [x]) (\<lambda>rb2. read_copy rb2 [y]) \<and>
         delivers x (write_move mf cancelled [x]) (\<lambda>rb2. read_move mf rb2 [y])"
proof -
  have c_blocking: "\<not> test (m_flags cancelled) RINGBUFFER_NONBLOCKING_READ_SHIFT"
    and c_empty: "m_produced (m_counters cancelled) = m_consumed (m_counters cancelled)"
    and c_wf: "wf cancelled"
    and c_nowrap: "m_produced (m_counters cancelled) + 1 \<noteq> 0"
    using blocking empty wf nowrap by (simp_all add: cancelled_def)
  have a: "rb_read xfer advance (cancel CONSUMER rb) mem data count
           = Returned cancelled mem (status_long OPERATION_CANCELLED)"
    using blocking empty count
    by (simp add: cancel_CONSUMER_blocking rb_read_empty_blocking post_def cancelled_def)
  have b: "read_resume xfer advance (cancel CONSUMER parked) mem data count
              = Returned cancelled mem (status_long OPERATION_CANCELLED)"
    if "rb_read xfer advance rb mem data count = Parked parked" for parked
  proof -
    from that have "parked = rb \<or>
        parked = rb\<lparr>m_reading_semaphore := (m_reading_semaphore rb)\<lparr>m_ready := False\<rparr>\<rparr>"
      using blocking empty count
      by (auto simp: rb_read_empty_blocking split: if_splits)
    then show ?thesis
      using blocking empty
      by (auto simp: cancel_CONSUMER_blocking read_resume_empty post_def cancelled_def)
  qed
  have c: "rb_read xfer advance cancelled mem data count = Parked cancelled"
    using c_blocking c_empty count
    by (simp add: rb_read_empty_blocking) (simp add: cancelled_def)
  have d: "delivers x (write_move mf' cancelled [x]) (\<lambda>rb2. read_move mf' rb2 [y])" for mf'
    unfolding delivers_def
    by (rule write_one_read_one [OF c_wf c_empty c_nowrap])
  show ?thesis
    using a b c d [of mf] d [of "\<lambda>x. x"]
    by (simp add: write_copy_eq_move read_copy_eq_move)
qed

theorem cancelled_read_witness:
  "\<not> test (m_flags queue4) RINGBUFFER_NONBLOCKING_READ_SHIFT \<and> wf queue4 \<and>
   m_produced (m_counters queue4) = m_consumed (m_counters queue4) \<and>
   read_copy queue4 [0] = Parked queue4 \<and>
   read_resume (\<lambda>mem data src. copy (mem, data) src) ptr_add (cancel CONSUMER queue4) [0] 0 1
     = Returned queue4 [0] (- 3) \<and>
   read_copy (cancel CONSUMER queue4) [0] = Returned queue4 [0] (- 3) \<and>
   (case write_copy queue4 [7] of
      Returned rb2 xs2 r \<Rightarrow>
        r = 1 \<and>
        (case read_copy rb2 [0] of
           Returned rb3 ys r' \<Rightarrow> r' = 1 \<and> ys = [7]
         | Parked rb3 \<Rightarrow> False
         | Undefined \<Rightarrow> False)
    | Parked rb2 \<Rightarrow> False
    | Undefined \<Rightarrow> False)"
proof -
  have h: "\<not> test (m_flags queue4) RINGBUFFER_NONBLOCKING_READ_SHIFT"
    "m_produced (m_counters queue4) = m_consumed (m_counters queue4)"
    "(1::size_t) \<noteq> 0" "wf queue4" "m_produced (m_counters queue4) + 1 \<noteq> 0"
    by code_simp+
  have same: "queue4\<lparr>m_reading_semaphore := (m_reading_semaphore queue4)\<lparr>m_ready := False\<rparr>,
      m_is_reading_cancelled := False\<rparr> = queue4"
    by code_simp
  have p: "rb_read (\<lambda>mem data src. copy (mem, data) src) ptr_add queue4 [0] 0 1 = Parked queue4"
    by code_simp
  note T = cancelled_read [OF h, where xfer = "\<lambda>mem data src. copy (mem, data) src"
      and advance = ptr_add and mem = "[0]" and data = 0 and x = 7 and y = 0
      and mf = "\<lambda>x. x", unfolded same]
  from T p h(1,2,4) show ?thesis
    by (simp add: read_copy_def)
qed

section \<open>Transfers through a callback\<close>

text \<open>
  The callback overloads hand cells of the array \<^verbatim>\<open>m_buffer\<close> to the callback, one at
  a time and in order. The lemmas below relate \<^verbatim>\<open>xfer_producer\<close> and
  \<^verbatim>\<open>xfer_consumer\<close>, and then the transfers of \<^verbatim>\<open>write\<close> and \<^verbatim>\<open>read\<close> with
  their split at the end of the array, to \<open>callback_run\<close> on those cells.
\<close>

lemma callback_run_length:
  "callback_run f s cells = (st, cells', s') \<Longrightarrow> length cells' = length cells"
  by (induction cells arbitrary: s st cells' s') (auto split: prod.splits if_splits)

lemma callback_run_append:
  "callback_run f s (a @ b) =
     (case callback_run f s a of (st, a', s1) \<Rightarrow>
        if \<not> st then (False, a' @ b, s1)
        else (case callback_run f s1 b of (st', b', s2) \<Rightarrow> (st', a' @ b', s2)))"
  by (induction a arbitrary: s) (auto split: prod.splits)

lemma blit_Cons_update:
  assumes "Suc (di + n) \<le> length dst" "length cs = n"
  shows "blit (dst[di := c]) (Suc di) cs 0 n = blit dst di (c # cs) 0 (Suc n)"
  using assms
  by (intro nth_equalityI)
     (auto simp: nth_blit nth_list_update nth_Cons' intro!: arg_cong [where f = "(!) dst"])

lemma blit_Cons_rest:
  assumes "Suc (di + n) \<le> length dst"
  shows "blit dst di (c # take n (drop (Suc di) dst)) 0 (Suc n) = dst[di := c]"
  using assms
  by (intro nth_equalityI)
     (auto simp: nth_blit nth_list_update nth_Cons' intro!: arg_cong [where f = "(!) dst"])

lemma xfer_producer_run:
  "di + n \<le> length dst \<Longrightarrow>
   xfer_producer (dst, di) s f n =
     (case callback_run f s (take n (drop di dst)) of
        (st, cells, s') \<Rightarrow> Some (st, blit dst di cells 0 n, s'))"
proof (induction n arbitrary: dst di s)
  case 0
  then show ?case by simp
next
  case (Suc n)
  then have t: "take (Suc n) (drop di dst) = dst ! di # take n (drop (Suc di) dst)"
    by (simp add: take_Suc_conv_app_nth Cons_nth_drop_Suc [symmetric])
  show ?case
  proof (cases "f s (dst ! di)")
    case (fields status c' s1)
    show ?thesis
    proof (cases status)
      case False
      with fields Suc.prems show ?thesis
        by (simp add: t blit_Cons_rest)
    next
      case True
      have d: "take n (drop (Suc di) (dst[di := c'])) = take n (drop (Suc di) dst)"
        by simp
      obtain st cs' s2 where r: "callback_run f s1 (take n (drop (Suc di) dst)) = (st, cs', s2)"
        by (cases "callback_run f s1 (take n (drop (Suc di) dst))")
      then have l: "length cs' = n" using Suc.prems by (auto dest!: callback_run_length)
      have "xfer_producer (dst[di := c'], Suc di) s1 f n
          = Some (st, blit (dst[di := c']) (Suc di) cs' 0 n, s2)"
        using Suc.prems by (subst Suc.IH) (simp_all add: d r)
      with True fields Suc.prems l show ?thesis
        by (simp add: t r blit_Cons_update)
    qed
  qed
qed

lemma xfer_consumer_run:
  "si + n \<le> length src \<Longrightarrow>
   xfer_consumer s f (src, si) n =
     (case callback_run f s (take n (drop si src)) of
        (st, cells, s') \<Rightarrow> Some (st, s', blit src si cells 0 n))"
proof (induction n arbitrary: src si s)
  case 0
  then show ?case by simp
next
  case (Suc n)
  then have t: "take (Suc n) (drop si src) = src ! si # take n (drop (Suc si) src)"
    by (simp add: take_Suc_conv_app_nth Cons_nth_drop_Suc [symmetric])
  show ?case
  proof (cases "f s (src ! si)")
    case (fields status c' s1)
    show ?thesis
    proof (cases status)
      case False
      with fields Suc.prems show ?thesis
        by (simp add: t blit_Cons_rest)
    next
      case True
      have d: "take n (drop (Suc si) (src[si := c'])) = take n (drop (Suc si) src)"
        by simp
      obtain st cs' s2 where r: "callback_run f s1 (take n (drop (Suc si) src)) = (st, cs', s2)"
        by (cases "callback_run f s1 (take n (drop (Suc si) src))")
      then have l: "length cs' = n" using Suc.prems by (auto dest!: callback_run_length)
      have "xfer_consumer s1 f (src[si := c'], Suc si) n
          = Some (st, s2, blit (src[si := c']) (Suc si) cs' 0 n)"
        using Suc.prems by (subst Suc.IH) (simp_all add: d r)
      with True fields Suc.prems l show ?thesis
        by (simp add: t r blit_Cons_update)
    qed
  qed
qed

lemma write_transfer_nat:
  fixes rb :: "'a ringbuffer" and count :: size_t
  assumes wf: "wf rb"
    and cp: "c \<le> p" and fill: "p - c \<le> m_capacity rb"
    and free: "free = m_capacity rb - (p - c)" "free \<noteq> 0"
  defines "k \<equiv> min (unat count) (unat free)"
    and "C \<equiv> unat (m_capacity rb)"
    and "widx \<equiv> unat p mod unat (m_capacity rb)"
  defines "fin \<equiv> \<lambda>buffer.
      rb\<lparr>m_buffer := buffer,
         m_counters := (m_counters rb)\<lparr>m_produced := p + of_nat k\<rparr>,
         m_reading_semaphore :=
           (if test (m_flags rb) RINGBUFFER_NONBLOCKING_READ_SHIFT then m_reading_semaphore rb
            else post (m_reading_semaphore rb))\<rparr>"
  shows "write_transfer xfer advance rb mem data count p free =
    (if C < widx + k then
       (case xfer (m_buffer rb, widx) mem data (C - widx) of
          None \<Rightarrow> Undefined
        | Some (status, buffer, mem1) \<Rightarrow>
            if \<not> status then Returned (rb\<lparr>m_buffer := buffer\<rparr>) mem1 (- 1)
            else
              (case xfer (buffer, 0) mem1 (advance data (C - widx)) (k - (C - widx)) of
                 None \<Rightarrow> Undefined
               | Some (status2, buffer2, mem2) \<Rightarrow>
                   if \<not> status2 then Returned (rb\<lparr>m_buffer := buffer2\<rparr>) mem2 (- 1)
                   else Returned (fin buffer2) mem2 (int k)))
     else
       (case xfer (m_buffer rb, widx) mem data k of
          None \<Rightarrow> Undefined
        | Some (status, buffer, mem1) \<Rightarrow>
            if \<not> status then Returned (rb\<lparr>m_buffer := buffer\<rparr>) mem1 (- 1)
            else Returned (fin buffer) mem1 (int k)))"
proof -
  define cap where "cap = m_capacity rb"
  define count' where "count' = (if count > free then free else count)"
  note W = wf_facts [OF wf, folded cap_def C_def]
  have free_le: "unat free \<le> C"
    using free_facts [OF cp fill] free by (simp add: C_def cap_def)
  note k1 = clamp_facts [OF k_def [THEN meta_eq_to_obj_eq] count'_def]
  have k2: "k \<le> C"
    using free_le by (simp add: k_def)
  have widx_eq: "widx = unat p mod C" by (simp add: widx_def C_def)
  have C_eq: "C = unat cap" by (simp add: C_def cap_def)
  note ix = index_facts [OF widx_eq C_eq W(1,2) k1(1) k2]
  have "count' \<le> cap" using k1(1) k2 by (simp add: word_le_nat_alt C_eq)
  then have "count' < LONG_MAX" using wf by (auto simp: wf_def cap_def elim: order_le_less_trans)
  then have long: "long_of_size count' = int k"
    using k1(1) by (simp add: long_of_size_small)
  show ?thesis
  proof (cases "C < widx + k")
    case True
    then have pos: "cap - p mod cap > 0" using ix(5) ix(2)
      by (simp add: word_less_nat_alt)
    show ?thesis
      using True W k1 k2 ix long pos
      unfolding write_transfer_def write_finish_def cap_def [symmetric] count'_def [symmetric] Let_def
        fin_def
      by (simp split: option.splits prod.splits)
  next
    case False
    show ?thesis
      using False W k1 k2 ix long
      unfolding write_transfer_def write_finish_def cap_def [symmetric] count'_def [symmetric] Let_def
        fin_def
      by (simp split: option.splits prod.splits)
  qed
qed

lemma blit_append_left:
  "length a = n \<Longrightarrow> blit dst di (a @ b) 0 n = blit dst di a 0 n"
  by (simp add: blit_def)

lemma blit_append_right:
  "length a = si \<Longrightarrow> blit dst di (a @ b) si n = blit dst di b 0 n"
  by (simp add: blit_def)

lemma blit_same:
  "di + n \<le> length dst \<Longrightarrow> blit dst di (take n (drop di dst)) 0 n = dst"
  by (intro nth_equalityI) (auto simp: nth_blit)

lemma take_blit_before:
  "m \<le> di \<Longrightarrow> di \<le> length dst \<Longrightarrow> take m (blit dst di src si n) = take m dst"
  by (simp add: blit_def)

lemma ring_blit_callback_run:
  fixes buf :: "'a list"
  assumes widx: "widx < length buf" and k: "k \<le> length buf"
  defines "C \<equiv> length buf"
  shows "(if C < widx + k then
       (case xfer_producer (buf, widx) s f (C - widx) of
          None \<Rightarrow> None
        | Some (status, buffer, s1) \<Rightarrow>
            if \<not> status then Some (False, buffer, s1)
            else xfer_producer (buffer, 0) s1 f (k - (C - widx)))
     else xfer_producer (buf, widx) s f k)
    = (case callback_run f s (ring_cells buf widx k) of
         (st, cells', s') \<Rightarrow> Some (st, ring_blit buf widx cells' k, s'))"
proof (cases "C < widx + k")
  case False
  then show ?thesis
    using widx k
    by (simp add: C_def xfer_producer_run ring_cells_def ring_blit_def split: prod.splits)
next
  case True
  define split where "split = C - widx"
  define rem where "rem = k - split"
  define A where "A = drop widx buf"
  define B where "B = take rem buf"
  have lens: "length A = split" "length B = rem" "rem \<le> widx" "widx + split = C"
    "split + rem = k"
    using True widx k by (simp_all add: A_def B_def split_def rem_def C_def)
  have cells: "ring_cells buf widx k = A @ B"
    using True by (simp add: ring_cells_def A_def B_def rem_def split_def C_def)
  have tA: "take split (drop widx buf) = A"
    using lens by (simp add: A_def)
  obtain stA A' s1 where rA: "callback_run f s A = (stA, A', s1)"
    by (cases "callback_run f s A")
  then have lA: "length A' = split" using lens by (auto dest!: callback_run_length)
  define buf1 where "buf1 = blit buf widx A' 0 split"
  have x1: "xfer_producer (buf, widx) s f split = Some (stA, buf1, s1)"
    using lens by (subst xfer_producer_run) (simp_all add: C_def tA rA buf1_def)
  have l1: "length buf1 = C" using lens lA by (simp add: buf1_def C_def)
  have tB: "take rem buf1 = B"
    using lens widx by (simp add: buf1_def take_blit_before B_def)
  have rb_fail: "ring_blit buf widx (A' @ B) k = buf1"
  proof -
    have "ring_blit buf widx (A' @ B) k = blit buf1 0 B 0 rem"
      using True lA
      by (simp add: ring_blit_def C_def [symmetric] split_def [symmetric] rem_def [symmetric]
          blit_append_left blit_append_right buf1_def)
    also have "\<dots> = buf1"
      using blit_same [of 0 rem buf1] lens l1 widx by (simp add: tB C_def)
    finally show ?thesis .
  qed
  have rb_ok: "ring_blit buf widx (A' @ B') k = blit buf1 0 B' 0 rem" for B'
    using True lA
    by (simp add: ring_blit_def C_def [symmetric] split_def [symmetric] rem_def [symmetric]
        blit_append_left blit_append_right buf1_def)
  show ?thesis
  proof (cases stA)
    case False
    with True x1 show ?thesis
      by (simp add: split_def [symmetric] cells callback_run_append rA rb_fail)
  next
    case stA: True
    obtain stB B' s2 where rB: "callback_run f s1 B = (stB, B', s2)"
      by (cases "callback_run f s1 B")
    have x2: "xfer_producer (buf1, 0) s1 f rem = Some (stB, blit buf1 0 B' 0 rem, s2)"
      using lens l1 widx by (subst xfer_producer_run) (simp_all add: tB rB C_def)
    from True x1 stA show ?thesis
      by (simp add: split_def [symmetric] rem_def [symmetric] cells callback_run_append
          rA rB x2 rb_ok)
  qed
qed

lemma write_transfer_via:
  fixes rb :: "'a ringbuffer" and count :: size_t
  assumes wf: "wf rb"
    and cp: "c \<le> p" and fill: "p - c \<le> m_capacity rb"
    and free: "free = m_capacity rb - (p - c)" "free \<noteq> 0"
  defines "k \<equiv> min (unat count) (unat free)"
    and "widx \<equiv> unat p mod unat (m_capacity rb)"
  shows "write_transfer (\<lambda>dst mem data. xfer_producer dst mem data) functor_advance
           rb s f count p free =
    (case callback_run f s (ring_cells (m_buffer rb) widx k) of
       (st, cells', s') \<Rightarrow>
         if st then
           Returned
             (rb\<lparr>m_buffer := ring_blit (m_buffer rb) widx cells' k,
                 m_counters := (m_counters rb)\<lparr>m_produced := p + of_nat k\<rparr>,
                 m_reading_semaphore :=
                   (if test (m_flags rb) RINGBUFFER_NONBLOCKING_READ_SHIFT
                    then m_reading_semaphore rb else post (m_reading_semaphore rb))\<rparr>)
             s' (int k)
         else Returned (rb\<lparr>m_buffer := ring_blit (m_buffer rb) widx cells' k\<rparr>) s' (- 1))"
proof -
  note W = wf_facts [OF wf]
  have kC: "k \<le> length (m_buffer rb)"
    using free_facts [OF cp fill] free W by (simp add: k_def)
  have wi: "widx < length (m_buffer rb)"
    using W by (simp add: widx_def)
  note E = ring_blit_callback_run [OF wi kC, where s = s and f = f, unfolded W(3)]
  show ?thesis
    unfolding write_transfer_nat [OF wf cp fill free] k_def [symmetric] widx_def [symmetric]
      functor_advance_def
    using E
    by (auto split: option.splits prod.splits if_splits)
qed

lemma read_transfer_nat:
  fixes rb :: "'a ringbuffer" and count :: size_t
  assumes wf: "wf rb"
    and cp: "c \<le> p" and fill: "p - c \<le> m_capacity rb"
    and avail: "avail = p - c" "avail \<noteq> 0"
  defines "k \<equiv> min (unat count) (unat avail)"
    and "C \<equiv> unat (m_capacity rb)"
    and "ridx \<equiv> unat c mod unat (m_capacity rb)"
  defines "fin \<equiv> \<lambda>buffer.
      rb\<lparr>m_buffer := buffer,
         m_counters := (m_counters rb)\<lparr>m_consumed := c + of_nat k\<rparr>,
         m_writing_semaphore :=
           (if test (m_flags rb) RINGBUFFER_NONBLOCKING_WRITE_SHIFT then m_writing_semaphore rb
            else post (m_writing_semaphore rb))\<rparr>"
  shows "read_transfer xfer advance rb mem data count c avail =
    (if C < ridx + k then
       (case xfer mem data (m_buffer rb, ridx) (C - ridx) of
          None \<Rightarrow> Undefined
        | Some (status, mem1, buffer) \<Rightarrow>
            if \<not> status then Returned (rb\<lparr>m_buffer := buffer\<rparr>) mem1 (- 1)
            else
              (case xfer mem1 (advance data (C - ridx)) (buffer, 0) (k - (C - ridx)) of
                 None \<Rightarrow> Undefined
               | Some (status2, mem2, buffer2) \<Rightarrow>
                   if \<not> status2 then Returned (rb\<lparr>m_buffer := buffer2\<rparr>) mem2 (- 1)
                   else Returned (fin buffer2) mem2 (int k)))
     else
       (case xfer mem data (m_buffer rb, ridx) k of
          None \<Rightarrow> Undefined
        | Some (status, mem1, buffer) \<Rightarrow>
            if \<not> status then Returned (rb\<lparr>m_buffer := buffer\<rparr>) mem1 (- 1)
            else Returned (fin buffer) mem1 (int k)))"
proof -
  define cap where "cap = m_capacity rb"
  define count' where "count' = (if count > avail then avail else count)"
  note W = wf_facts [OF wf, folded cap_def C_def]
  have avail_le: "unat avail \<le> C"
    using fill avail by (simp add: C_def word_le_nat_alt)
  note k1 = clamp_facts [OF k_def [THEN meta_eq_to_obj_eq] count'_def]
  have k2: "k \<le> C"
    using avail_le by (simp add: k_def)
  have ridx_eq: "ridx = unat c mod C" by (simp add: ridx_def C_def)
  have C_eq: "C = unat cap" by (simp add: C_def cap_def)
  note ix = index_facts [OF ridx_eq C_eq W(1,2) k1(1) k2]
  have "count' \<le> cap" using k1(1) k2 by (simp add: word_le_nat_alt C_eq)
  then have "count' < LONG_MAX" using wf by (auto simp: wf_def cap_def elim: order_le_less_trans)
  then have long: "long_of_size count' = int k"
    using k1(1) by (simp add: long_of_size_small)
  show ?thesis
  proof (cases "C < ridx + k")
    case True
    then have pos: "cap - c mod cap > 0" using ix(5) ix(2)
      by (simp add: word_less_nat_alt)
    show ?thesis
      using True W k1 k2 ix long pos
      unfolding read_transfer_def read_finish_def cap_def [symmetric] count'_def [symmetric] Let_def
        fin_def
      by (simp split: option.splits prod.splits)
  next
    case False
    show ?thesis
      using False W k1 k2 ix long
      unfolding read_transfer_def read_finish_def cap_def [symmetric] count'_def [symmetric] Let_def
        fin_def
      by (simp split: option.splits prod.splits)
  qed
qed

lemma ring_blit_callback_run_consumer:
  fixes buf :: "'a list"
  assumes ridx: "ridx < length buf" and k: "k \<le> length buf"
  defines "C \<equiv> length buf"
  shows "(if C < ridx + k then
       (case xfer_consumer s f (buf, ridx) (C - ridx) of
          None \<Rightarrow> None
        | Some (status, s1, buffer) \<Rightarrow>
            if \<not> status then Some (False, s1, buffer)
            else xfer_consumer s1 f (buffer, 0) (k - (C - ridx)))
     else xfer_consumer s f (buf, ridx) k)
    = (case callback_run f s (ring_cells buf ridx k) of
         (st, cells', s') \<Rightarrow> Some (st, s', ring_blit buf ridx cells' k))"
proof (cases "C < ridx + k")
  case False
  then show ?thesis
    using ridx k
    by (simp add: C_def xfer_consumer_run ring_cells_def ring_blit_def split: prod.splits)
next
  case True
  define split where "split = C - ridx"
  define rem where "rem = k - split"
  define A where "A = drop ridx buf"
  define B where "B = take rem buf"
  have lens: "length A = split" "length B = rem" "rem \<le> ridx" "ridx + split = C"
    "split + rem = k"
    using True ridx k by (simp_all add: A_def B_def split_def rem_def C_def)
  have cells: "ring_cells buf ridx k = A @ B"
    using True by (simp add: ring_cells_def A_def B_def rem_def split_def C_def)
  have tA: "take split (drop ridx buf) = A"
    using lens by (simp add: A_def)
  obtain stA A' s1 where rA: "callback_run f s A = (stA, A', s1)"
    by (cases "callback_run f s A")
  then have lA: "length A' = split" using lens by (auto dest!: callback_run_length)
  define buf1 where "buf1 = blit buf ridx A' 0 split"
  have x1: "xfer_consumer s f (buf, ridx) split = Some (stA, s1, buf1)"
    using lens by (subst xfer_consumer_run) (simp_all add: C_def tA rA buf1_def)
  have l1: "length buf1 = C" using lens lA by (simp add: buf1_def C_def)
  have tB: "take rem buf1 = B"
    using lens ridx by (simp add: buf1_def take_blit_before B_def)
  have rb_fail: "ring_blit buf ridx (A' @ B) k = buf1"
  proof -
    have "ring_blit buf ridx (A' @ B) k = blit buf1 0 B 0 rem"
      using True lA
      by (simp add: ring_blit_def C_def [symmetric] split_def [symmetric] rem_def [symmetric]
          blit_append_left blit_append_right buf1_def)
    also have "\<dots> = buf1"
      using blit_same [of 0 rem buf1] lens l1 ridx by (simp add: tB C_def)
    finally show ?thesis .
  qed
  have rb_ok: "ring_blit buf ridx (A' @ B') k = blit buf1 0 B' 0 rem" for B'
    using True lA
    by (simp add: ring_blit_def C_def [symmetric] split_def [symmetric] rem_def [symmetric]
        blit_append_left blit_append_right buf1_def)
  show ?thesis
  proof (cases stA)
    case False
    with True x1 show ?thesis
      by (simp add: split_def [symmetric] cells callback_run_append rA rb_fail)
  next
    case stA: True
    obtain stB B' s2 where rB: "callback_run f s1 B = (stB, B', s2)"
      by (cases "callback_run f s1 B")
    have x2: "xfer_consumer s1 f (buf1, 0) rem = Some (stB, s2, blit buf1 0 B' 0 rem)"
      using lens l1 ridx by (subst xfer_consumer_run) (simp_all add: tB rB C_def)
    from True x1 stA show ?thesis
      by (simp add: split_def [symmetric] rem_def [symmetric] cells callback_run_append
          rA rB x2 rb_ok)
  qed
qed

lemma read_transfer_via:
  fixes rb :: "'a ringbuffer" and count :: size_t
  assumes wf: "wf rb"
    and cp: "c \<le> p" and fill: "p - c \<le> m_capacity rb"
    and avail: "avail = p - c" "avail \<noteq> 0"
  defines "k \<equiv> min (unat count) (unat avail)"
    and "ridx \<equiv> unat c mod unat (m_capacity rb)"
  shows "read_transfer (\<lambda>mem data src. xfer_consumer mem data src) functor_advance
           rb s f count c avail =
    (case callback_run f s (ring_cells (m_buffer rb) ridx k) of
       (st, cells', s') \<Rightarrow>
         if st then
           Returned
             (rb\<lparr>m_buffer := ring_blit (m_buffer rb) ridx cells' k,
                 m_counters := (m_counters rb)\<lparr>m_consumed := c + of_nat k\<rparr>,
                 m_writing_semaphore :=
                   (if test (m_flags rb) RINGBUFFER_NONBLOCKING_WRITE_SHIFT
                    then m_writing_semaphore rb else post (m_writing_semaphore rb))\<rparr>)
             s' (int k)
         else Returned (rb\<lparr>m_buffer := ring_blit (m_buffer rb) ridx cells' k\<rparr>) s' (- 1))"
proof -
  note W = wf_facts [OF wf]
  have kC: "k \<le> length (m_buffer rb)"
    using fill avail W by (simp add: k_def word_le_nat_alt)
  have ri: "ridx < length (m_buffer rb)"
    using W by (simp add: ridx_def)
  note E = ring_blit_callback_run_consumer [OF ri kC, where s = s and f = f, unfolded W(3)]
  show ?thesis
    unfolding read_transfer_nat [OF wf cp fill avail] k_def [symmetric] ridx_def [symmetric]
      functor_advance_def
    using E
    by (auto split: option.splits prod.splits if_splits)
qed

lemma ring_cells_pending:
  fixes rb :: "'a ringbuffer"
  assumes wf: "wf rb" and ok: "counters_ok rb"
    and k: "k \<le> unat (m_produced (m_counters rb) - m_consumed (m_counters rb))"
  shows "ring_cells (m_buffer rb) (unat (m_consumed (m_counters rb)) mod unat (m_capacity rb)) k
         = take k (pending rb)"
proof -
  define C where "C = unat (m_capacity rb)"
  note W = wf_facts [OF wf, folded C_def]
  have cp: "m_consumed (m_counters rb) \<le> m_produced (m_counters rb)"
    "m_produced (m_counters rb) - m_consumed (m_counters rb) \<le> m_capacity rb"
    using ok by (simp_all add: counters_ok_def)
  note F = free_facts [OF cp, folded C_def]
  have kC: "k \<le> C" using k F by simp
  define ridx where "ridx = unat (m_consumed (m_counters rb)) mod C"
  have ri: "ridx < C" using W by (simp add: ridx_def)
  have idx: "(unat (m_consumed (m_counters rb)) + i) mod C
      = (if ridx + i < C then ridx + i else ridx + i - C)" if "i \<le> C" for i
  proof -
    have "(unat (m_consumed (m_counters rb)) + i) mod C = (ridx + i) mod C"
      by (simp add: ridx_def mod_add_mod_left)
    then show ?thesis using mod_wrap [OF ri that] by simp
  qed
  have len: "length (ring_cells (m_buffer rb) ridx k) = k"
    using kC W ri by (auto simp: ring_cells_def)
  show ?thesis
    unfolding C_def [symmetric] ridx_def [symmetric]
  proof (rule nth_equalityI)
    show "length (ring_cells (m_buffer rb) ridx k) = length (take k (pending rb))"
      using len k by simp
    fix i assume "i < length (ring_cells (m_buffer rb) ridx k)"
    then have i: "i < k" using len by simp
    then have "pending rb ! i = m_buffer rb ! (if ridx + i < C then ridx + i else ridx + i - C)"
      using k kC idx [of i] by (simp add: pending_def C_def [symmetric])
    moreover have "ring_cells (m_buffer rb) ridx k ! i
        = m_buffer rb ! (if ridx + i < C then ridx + i else ridx + i - C)"
      using i kC W ri
      by (auto simp: ring_cells_def nth_append intro!: arg_cong [where f = "(!) (m_buffer rb)"])
    ultimately show "ring_cells (m_buffer rb) ridx k ! i = take k (pending rb) ! i"
      using i by simp
  qed
qed

lemma length_ring_cells:
  "idx < length buf \<Longrightarrow> k \<le> length buf \<Longrightarrow> length (ring_cells buf idx k) = k"
  by (auto simp: ring_cells_def)

lemma rb_write_full_nonblocking:
  assumes "count \<noteq> 0" "counters_ok rb"
    "m_produced (m_counters rb) - m_consumed (m_counters rb) = m_capacity rb"
    "test (m_flags rb) RINGBUFFER_NONBLOCKING_WRITE_SHIFT"
  shows "rb_write xfer advance rb mem data count =
    Returned (rb\<lparr>m_counters := (m_counters rb)\<lparr>m_dropped := m_dropped (m_counters rb) + 1\<rparr>\<rparr>)
      mem (status_long WOULD_BLOCK)"
  using assms by (simp add: rb_write_def write_admitted_def write_nonblocking_ok)

lemma write_via_room:
  fixes rb :: "'a ringbuffer" and count :: size_t
  assumes cnt: "count \<noteq> 0" and wf: "wf rb" and ok: "counters_ok rb"
    and room: "m_produced (m_counters rb) - m_consumed (m_counters rb) \<noteq> m_capacity rb"
  defines "k \<equiv> min (unat count)
      (unat (m_capacity rb) - unat (m_produced (m_counters rb) - m_consumed (m_counters rb)))"
    and "widx \<equiv> unat (m_produced (m_counters rb)) mod unat (m_capacity rb)"
  shows "write_via rb f s count =
    (case callback_run f s (ring_cells (m_buffer rb) widx k) of
       (st, cells', s') \<Rightarrow>
         if st then
           Returned
             (rb\<lparr>m_buffer := ring_blit (m_buffer rb) widx cells' k,
                 m_counters := (m_counters rb)\<lparr>m_produced := m_produced (m_counters rb) + of_nat k\<rparr>,
                 m_reading_semaphore :=
                   (if test (m_flags rb) RINGBUFFER_NONBLOCKING_READ_SHIFT
                    then m_reading_semaphore rb else post (m_reading_semaphore rb))\<rparr>)
             s' (int k)
         else Returned (rb\<lparr>m_buffer := ring_blit (m_buffer rb) widx cells' k\<rparr>) s' (- 1))"
proof -
  have cp: "m_consumed (m_counters rb) \<le> m_produced (m_counters rb)"
    "m_produced (m_counters rb) - m_consumed (m_counters rb) \<le> m_capacity rb"
    using ok by (simp_all add: counters_ok_def)
  have free: "m_capacity rb - (m_produced (m_counters rb) - m_consumed (m_counters rb)) \<noteq> 0"
    using room by auto
  have e: "unat (m_capacity rb - (m_produced (m_counters rb) - m_consumed (m_counters rb)))
      = unat (m_capacity rb) - unat (m_produced (m_counters rb) - m_consumed (m_counters rb))"
    using free_facts [OF cp] by simp
  show ?thesis
    unfolding k_def widx_def
    using cnt ok room
    by (simp add: write_via_def rb_write_def write_admitted_def write_nonblocking_ok
        write_blocking_top write_transfer_via [OF wf cp refl free, unfolded e])
qed

lemma read_via_data:
  fixes rb :: "'a ringbuffer" and count :: size_t
  assumes cnt: "count \<noteq> 0" and wf: "wf rb" and ok: "counters_ok rb"
    and data: "m_produced (m_counters rb) \<noteq> m_consumed (m_counters rb)"
  defines "k \<equiv> min (unat count)
      (unat (m_produced (m_counters rb) - m_consumed (m_counters rb)))"
    and "ridx \<equiv> unat (m_consumed (m_counters rb)) mod unat (m_capacity rb)"
  shows "read_via rb f s count =
    (case callback_run f s (take k (pending rb)) of
       (st, cells', s') \<Rightarrow>
         if st then
           Returned
             (rb\<lparr>m_buffer := ring_blit (m_buffer rb) ridx cells' k,
                 m_counters := (m_counters rb)\<lparr>m_consumed := m_consumed (m_counters rb) + of_nat k\<rparr>,
                 m_writing_semaphore :=
                   (if test (m_flags rb) RINGBUFFER_NONBLOCKING_WRITE_SHIFT
                    then m_writing_semaphore rb else post (m_writing_semaphore rb))\<rparr>)
             s' (int k)
         else Returned (rb\<lparr>m_buffer := ring_blit (m_buffer rb) ridx cells' k\<rparr>) s' (- 1))"
proof -
  have cp: "m_consumed (m_counters rb) \<le> m_produced (m_counters rb)"
    "m_produced (m_counters rb) - m_consumed (m_counters rb) \<le> m_capacity rb"
    using ok by (simp_all add: counters_ok_def)
  have avail: "m_produced (m_counters rb) - m_consumed (m_counters rb) \<noteq> 0"
    using data by auto
  have k: "k \<le> unat (m_produced (m_counters rb) - m_consumed (m_counters rb))"
    by (simp add: k_def)
  note T = read_transfer_via [OF wf cp refl avail, where count = count and s = s and f = f,
      unfolded ring_cells_pending [OF wf ok k [unfolded k_def]]]
  show ?thesis
    unfolding k_def ridx_def
    using cnt ok data
    by (simp add: read_via_def rb_read_def read_admitted_def read_nonblocking_ok
        read_blocking_top T)
qed

lemma write_via_serviced:
  fixes rb :: "'a ringbuffer" and count :: size_t
  assumes cnt: "count \<noteq> 0" and wf: "wf rb" and ok: "counters_ok rb"
    and room: "m_produced (m_counters rb) - m_consumed (m_counters rb) \<noteq> m_capacity rb"
  defines "k \<equiv> min (unat count)
      (unat (m_capacity rb) - unat (m_produced (m_counters rb) - m_consumed (m_counters rb)))"
  defines "cells \<equiv> ring_cells (m_buffer rb)
      (unat (m_produced (m_counters rb)) mod unat (m_capacity rb)) k"
  shows "case write_via rb f s count of
           Returned rb' s' r \<Rightarrow>
             s' = snd (snd (callback_run f s cells)) \<and>
             m_consumed (m_counters rb') = m_consumed (m_counters rb) \<and>
             m_dropped (m_counters rb') = m_dropped (m_counters rb) \<and>
             (if fst (callback_run f s cells) then
                r = int k \<and>
                pending rb' = pending rb @ fst (snd (callback_run f s cells)) \<and>
                m_produced (m_counters rb') = m_produced (m_counters rb) + of_nat k
              else
                r = status_long INTERNAL_ERROR \<and>
                m_produced (m_counters rb') = m_produced (m_counters rb))
         | Parked rb' \<Rightarrow> False
         | Undefined \<Rightarrow> False"
proof -
  note W = wf_facts [OF wf]
  have kC: "k \<le> unat (m_capacity rb) - unat (m_produced (m_counters rb) - m_consumed (m_counters rb))"
    by (simp add: k_def)
  then have kb: "k \<le> length (m_buffer rb)" using W by simp
  have wi: "unat (m_produced (m_counters rb)) mod unat (m_capacity rb) < length (m_buffer rb)"
    using W by simp
  obtain st cells' s1 where r: "callback_run f s cells = (st, cells', s1)"
    by (cases "callback_run f s cells")
  then have "length cells' = length cells" by (rule callback_run_length)
  then have l: "length cells' = k"
    by (simp add: cells_def length_ring_cells [OF wi kb])
  have p: "pending (rb\<lparr>m_buffer := ring_blit (m_buffer rb)
                        (unat (m_produced (m_counters rb)) mod unat (m_capacity rb)) cells' k,
                     m_counters := (m_counters rb)\<lparr>m_produced := m_produced (m_counters rb) + of_nat k\<rparr>\<rparr>)
         = pending rb @ cells'"
    using pending_write [OF wf ok kC, of cells'] l by simp
  show ?thesis
    unfolding write_via_room [OF cnt wf ok room, folded k_def cells_def] r
    using p by (simp cong: pending_cong)
qed

lemma read_via_failed:
  fixes rb :: "'a ringbuffer" and count :: size_t
  assumes cnt: "count \<noteq> 0" and wf: "wf rb" and ok: "counters_ok rb"
    and data: "m_produced (m_counters rb) \<noteq> m_consumed (m_counters rb)"
  defines "k \<equiv> min (unat count)
      (unat (m_produced (m_counters rb) - m_consumed (m_counters rb)))"
  defines "cells \<equiv> take k (pending rb)"
  shows "case read_via rb f s count of
           Returned rb' s' r \<Rightarrow>
             s' = snd (snd (callback_run f s cells)) \<and>
             m_produced (m_counters rb') = m_produced (m_counters rb) \<and>
             m_dropped (m_counters rb') = m_dropped (m_counters rb) \<and>
             (if fst (callback_run f s cells) then
                r = int k \<and>
                m_consumed (m_counters rb') = m_consumed (m_counters rb) + of_nat k
              else
                r = status_long INTERNAL_ERROR \<and>
                m_consumed (m_counters rb') = m_consumed (m_counters rb))
         | Parked rb' \<Rightarrow> False
         | Undefined \<Rightarrow> False"
proof -
  obtain st cells' s1 where r: "callback_run f s cells = (st, cells', s1)"
    by (cases "callback_run f s cells")
  show ?thesis
    unfolding read_via_data [OF cnt wf ok data, folded k_def cells_def] r
    by simp
qed

lemma write_resume_via:
  fixes rb :: "'a ringbuffer" and count :: size_t
  assumes woken: "m_ready (m_writing_semaphore rb)" "\<not> m_is_writing_cancelled rb"
    and wf: "wf rb" and ok: "counters_ok rb"
    and room: "m_produced (m_counters rb) - m_consumed (m_counters rb) \<noteq> m_capacity rb"
  defines "k \<equiv> min (unat count)
      (unat (m_capacity rb) - unat (m_produced (m_counters rb) - m_consumed (m_counters rb)))"
  defines "cells \<equiv> ring_cells (m_buffer rb)
      (unat (m_produced (m_counters rb)) mod unat (m_capacity rb)) k"
  shows "case write_resume (\<lambda>dst mem data. xfer_producer dst mem data) functor_advance
                rb s f count of
           Returned rb' s' r \<Rightarrow>
             s' = snd (snd (callback_run f s cells)) \<and>
             m_consumed (m_counters rb') = m_consumed (m_counters rb) \<and>
             m_dropped (m_counters rb') = m_dropped (m_counters rb) \<and>
             (if fst (callback_run f s cells) then
                r = int k \<and>
                m_produced (m_counters rb') = m_produced (m_counters rb) + of_nat k
              else
                r = status_long INTERNAL_ERROR \<and>
                m_produced (m_counters rb') = m_produced (m_counters rb))
         | Parked rb' \<Rightarrow> False
         | Undefined \<Rightarrow> False"
proof -
  define rb1 where
    "rb1 = rb\<lparr>m_writing_semaphore := (m_writing_semaphore rb)\<lparr>m_ready := False\<rparr>\<rparr>"
  have wf1: "wf rb1" using wf by (simp add: rb1_def)
  have cp: "m_consumed (m_counters rb) \<le> m_produced (m_counters rb)"
    "m_produced (m_counters rb) - m_consumed (m_counters rb) \<le> m_capacity rb1"
    using ok by (simp_all add: counters_ok_def rb1_def)
  have free: "m_capacity rb1 - (m_produced (m_counters rb) - m_consumed (m_counters rb)) \<noteq> 0"
    using room by (auto simp: rb1_def)
  have e: "unat (m_capacity rb1 - (m_produced (m_counters rb) - m_consumed (m_counters rb)))
      = unat (m_capacity rb) - unat (m_produced (m_counters rb) - m_consumed (m_counters rb))"
    using free_facts [OF cp] by (simp add: rb1_def)
  have b: "m_buffer rb1 = m_buffer rb" "m_capacity rb1 = m_capacity rb"
    "m_counters rb1 = m_counters rb"
    by (simp_all add: rb1_def)
  obtain st cells' s1 where r: "callback_run f s cells = (st, cells', s1)"
    by (cases "callback_run f s cells")
  have kk: "min (unat count)
      (unat (m_capacity rb1 - (m_produced (m_counters rb) - m_consumed (m_counters rb)))) = k"
    by (simp add: k_def e)
  have sc: "ring_cells (m_buffer rb1)
      (unat (m_produced (m_counters rb)) mod unat (m_capacity rb1)) k = cells"
    by (simp add: cells_def b)
  note T = write_transfer_via [OF wf1 cp refl free, where count = count and s = s and f = f,
      unfolded kk, unfolded sc, unfolded r]
  have adm: "write_blocking True rb =
      Proceed rb1 (m_produced (m_counters rb)) (m_consumed (m_counters rb))
        (m_capacity rb1 - (m_produced (m_counters rb) - m_consumed (m_counters rb)))"
    using woken ok room
    by (simp add: write_blocking_at_wait write_blocking_top rb1_def)
  show ?thesis
    unfolding write_resume_def adm write_admitted_def admission.case T
    by (simp add: b r)
qed

lemma read_resume_via:
  fixes rb :: "'a ringbuffer" and count :: size_t
  assumes woken: "m_ready (m_reading_semaphore rb)" "\<not> m_is_reading_cancelled rb"
    and wf: "wf rb" and ok: "counters_ok rb"
    and data: "m_produced (m_counters rb) \<noteq> m_consumed (m_counters rb)"
  defines "k \<equiv> min (unat count)
      (unat (m_produced (m_counters rb) - m_consumed (m_counters rb)))"
  defines "cells \<equiv> take k (pending rb)"
  shows "case read_resume (\<lambda>mem data src. xfer_consumer mem data src) functor_advance
                rb s f count of
           Returned rb' s' r \<Rightarrow>
             s' = snd (snd (callback_run f s cells)) \<and>
             m_produced (m_counters rb') = m_produced (m_counters rb) \<and>
             m_dropped (m_counters rb') = m_dropped (m_counters rb) \<and>
             (if fst (callback_run f s cells) then
                r = int k \<and>
                m_consumed (m_counters rb') = m_consumed (m_counters rb) + of_nat k
              else
                r = status_long INTERNAL_ERROR \<and>
                m_consumed (m_counters rb') = m_consumed (m_counters rb))
         | Parked rb' \<Rightarrow> False
         | Undefined \<Rightarrow> False"
proof -
  define rb1 where
    "rb1 = rb\<lparr>m_reading_semaphore := (m_reading_semaphore rb)\<lparr>m_ready := False\<rparr>\<rparr>"
  have wf1: "wf rb1" using wf by (simp add: rb1_def)
  have ok1: "counters_ok rb1" using ok by (simp add: rb1_def)
  have b: "m_buffer rb1 = m_buffer rb" "m_capacity rb1 = m_capacity rb"
    "m_counters rb1 = m_counters rb" "pending rb1 = pending rb"
    by (simp_all add: rb1_def)
  have cp: "m_consumed (m_counters rb1) \<le> m_produced (m_counters rb1)"
    "m_produced (m_counters rb1) - m_consumed (m_counters rb1) \<le> m_capacity rb1"
    using ok1 by (simp_all add: counters_ok_def)
  have avail: "m_produced (m_counters rb1) - m_consumed (m_counters rb1) \<noteq> 0"
    using data by (auto simp: b)
  have k: "min (unat count) (unat (m_produced (m_counters rb1) - m_consumed (m_counters rb1)))
      \<le> unat (m_produced (m_counters rb1) - m_consumed (m_counters rb1))"
    by simp
  obtain st cells' s1 where r: "callback_run f s cells = (st, cells', s1)"
    by (cases "callback_run f s cells")
  have kk: "min (unat count)
      (unat (m_produced (m_counters rb1) - m_consumed (m_counters rb1))) = k"
    by (simp add: k_def b)
  have sc: "take k (pending rb1) = cells"
    by (simp add: cells_def b)
  note T = read_transfer_via [OF wf1 cp refl avail, where count = count and s = s and f = f,
      unfolded ring_cells_pending [OF wf1 ok1 k], unfolded kk, unfolded sc, unfolded r]
  have adm: "read_blocking True rb =
      Proceed rb1 (m_produced (m_counters rb1)) (m_consumed (m_counters rb1))
        (m_produced (m_counters rb1) - m_consumed (m_counters rb1))"
    using woken ok data
    by (simp add: read_blocking_at_wait read_blocking_top rb1_def)
  show ?thesis
    unfolding read_resume_def adm read_admitted_def admission.case T
    by (simp add: b r)
qed

lemma write_via_full_nonblocking:
  assumes "count \<noteq> 0" "counters_ok rb"
    "m_produced (m_counters rb) - m_consumed (m_counters rb) = m_capacity rb"
    "test (m_flags rb) RINGBUFFER_NONBLOCKING_WRITE_SHIFT"
  shows "write_via rb f s count =
    Returned (rb\<lparr>m_counters := (m_counters rb)\<lparr>m_dropped := m_dropped (m_counters rb) + 1\<rparr>\<rparr>)
      s (status_long WOULD_BLOCK)"
  unfolding write_via_def by (rule rb_write_full_nonblocking [OF assms])

section \<open>A callback that returns false\<close>

lemma callback_run_failed:
  "\<not> fst (callback_run f s cells) \<Longrightarrow> cells \<noteq> []"
  by (cases cells) simp_all

lemma failed_write_admitted:
  fixes rb :: "'a ringbuffer" and count :: size_t
  assumes wf: "wf rb" and ok: "counters_ok rb"
    and failed: "\<not> fst (callback_run f s (ring_cells (m_buffer rb)
        (unat (m_produced (m_counters rb)) mod unat (m_capacity rb))
        (min (unat count) (unat (m_capacity rb) -
           unat (m_produced (m_counters rb) - m_consumed (m_counters rb))))))"
  shows "count \<noteq> 0"
    "m_produced (m_counters rb) - m_consumed (m_counters rb) \<noteq> m_capacity rb"
proof -
  note W = wf_facts [OF wf]
  let ?k = "min (unat count) (unat (m_capacity rb) -
           unat (m_produced (m_counters rb) - m_consumed (m_counters rb)))"
  have kb: "?k \<le> length (m_buffer rb)" using W by simp
  have wi: "unat (m_produced (m_counters rb)) mod unat (m_capacity rb) < length (m_buffer rb)"
    using W by simp
  have "length (ring_cells (m_buffer rb)
        (unat (m_produced (m_counters rb)) mod unat (m_capacity rb)) ?k) \<noteq> 0"
    using callback_run_failed [OF failed] by simp
  then have k: "?k \<noteq> 0" by (simp add: length_ring_cells [OF wi kb])
  then show "count \<noteq> 0" by auto
  from k show "m_produced (m_counters rb) - m_consumed (m_counters rb) \<noteq> m_capacity rb"
    by auto
qed

lemma failed_read_admitted:
  fixes rb :: "'a ringbuffer" and count :: size_t
  assumes failed: "\<not> fst (callback_run f s
        (take (min (unat count) (unat (m_produced (m_counters rb) - m_consumed (m_counters rb))))
           (pending rb)))"
  shows "count \<noteq> 0" "m_produced (m_counters rb) \<noteq> m_consumed (m_counters rb)"
proof -
  have "length (take (min (unat count)
          (unat (m_produced (m_counters rb) - m_consumed (m_counters rb)))) (pending rb)) \<noteq> 0"
    using callback_run_failed [OF failed] by simp
  then have k: "min (unat count)
      (unat (m_produced (m_counters rb) - m_consumed (m_counters rb))) \<noteq> 0"
    by auto
  then show "count \<noteq> 0" by auto
  from k show "m_produced (m_counters rb) \<noteq> m_consumed (m_counters rb)" by auto
qed

text \<open>
  C5. Let the callback handed to the callback overload of \<^verbatim>\<open>write\<close> return false at
  one of its calls on the cells that the call transfers: the first
  \<open>min count (capacity - (produced - consumed))\<close> cells from the write index on,
  handed over in order. Then on a well-formed ring buffer with valid counters the
  call returns, its result is \<^verbatim>\<open>INTERNAL_ERROR\<close>, and \<^verbatim>\<open>m_produced\<close>, \<^verbatim>\<open>m_consumed\<close>
  and \<^verbatim>\<open>m_dropped\<close> are as before the call; the state captured by the callback is
  the one after its failing call. The same holds for a writer that was waiting
  for free cells and goes on after it has been woken, and, with the first
  \<open>min count (produced - consumed)\<close> pending elements as the cells, for the
  callback overload of \<^verbatim>\<open>read\<close> and for a woken reader. On every ring buffer
  whatsoever, a call that has returned after its callback has returned false (the
  flag of the traced callback, clear before the call, is set after it) has
  returned \<^verbatim>\<open>INTERNAL_ERROR\<close> and has changed none of the counters.
\<close>

theorem failed_callback_no_progress:
  fixes rb :: "'a ringbuffer" and count :: size_t and f :: "('a, 's) callback" and s :: 's
  defines "fill \<equiv> m_produced (m_counters rb) - m_consumed (m_counters rb)"
  defines "wcells \<equiv> ring_cells (m_buffer rb)
      (unat (m_produced (m_counters rb)) mod unat (m_capacity rb))
      (min (unat count) (unat (m_capacity rb) - unat fill))"
    and "rcells \<equiv> take (min (unat count) (unat fill)) (pending rb)"
  defines "no_progress \<equiv> \<lambda>cells res.
      (case res of
         Returned rb' s' r \<Rightarrow>
           r = status_long INTERNAL_ERROR \<and>
           s' = snd (snd (callback_run f s cells)) \<and>
           m_produced (m_counters rb') = m_produced (m_counters rb) \<and>
           m_consumed (m_counters rb') = m_consumed (m_counters rb) \<and>
           m_dropped (m_counters rb') = m_dropped (m_counters rb)
       | Parked rb' \<Rightarrow> False
       | Undefined \<Rightarrow> False)"
  shows "(wf rb \<and> counters_ok rb \<and> \<not> fst (callback_run f s wcells) \<longrightarrow>
            no_progress wcells (write_via rb f s count) \<and>
            (m_ready (m_writing_semaphore rb) \<and> \<not> m_is_writing_cancelled rb \<longrightarrow>
               no_progress wcells
                 (write_resume (\<lambda>dst mem data. xfer_producer dst mem data) functor_advance
                    rb s f count))) \<and>
         (wf rb \<and> counters_ok rb \<and> \<not> fst (callback_run f s rcells) \<longrightarrow>
            no_progress rcells (read_via rb f s count) \<and>
            (m_ready (m_reading_semaphore rb) \<and> \<not> m_is_reading_cancelled rb \<longrightarrow>
               no_progress rcells
                 (read_resume (\<lambda>mem data src. xfer_consumer mem data src) functor_advance
                    rb s f count))) \<and>
         (write_via rb (traced f) (s, False) count = Returned rb1 (s1, True) r1 \<longrightarrow>
            r1 = status_long INTERNAL_ERROR \<and> m_counters rb1 = m_counters rb) \<and>
         (read_via rb (traced f) (s, False) count = Returned rb1 (s1, True) r1 \<longrightarrow>
            r1 = status_long INTERNAL_ERROR \<and> m_counters rb1 = m_counters rb)"
proof -
  have w: "no_progress wcells (write_via rb f s count)"
    if h: "wf rb" "counters_ok rb" "\<not> fst (callback_run f s wcells)"
    using write_via_serviced [OF failed_write_admitted(1) [OF h(1,2) h(3) [unfolded wcells_def fill_def]]
        h(1,2) failed_write_admitted(2) [OF h(1,2) h(3) [unfolded wcells_def fill_def]],
        where f = f and s = s] h(3)
    unfolding no_progress_def wcells_def fill_def
    by (simp split: call.splits)
  have wr: "no_progress wcells
      (write_resume (\<lambda>dst mem data. xfer_producer dst mem data) functor_advance rb s f count)"
    if h: "wf rb" "counters_ok rb" "\<not> fst (callback_run f s wcells)"
      and k: "m_ready (m_writing_semaphore rb)" "\<not> m_is_writing_cancelled rb"
    using write_resume_via [OF k h(1,2)
        failed_write_admitted(2) [OF h(1,2) h(3) [unfolded wcells_def fill_def]],
        where f = f and s = s and count = count] h(3)
    unfolding no_progress_def wcells_def fill_def
    by (simp split: call.splits)
  have r: "no_progress rcells (read_via rb f s count)"
    if h: "wf rb" "counters_ok rb" "\<not> fst (callback_run f s rcells)"
    using read_via_failed [OF failed_read_admitted(1) [OF h(3) [unfolded rcells_def fill_def]]
        h(1,2) failed_read_admitted(2) [OF h(3) [unfolded rcells_def fill_def]],
        where f = f and s = s] h(3)
    unfolding no_progress_def rcells_def fill_def
    by (simp split: call.splits)
  have rr: "no_progress rcells
      (read_resume (\<lambda>mem data src. xfer_consumer mem data src) functor_advance rb s f count)"
    if h: "wf rb" "counters_ok rb" "\<not> fst (callback_run f s rcells)"
      and k: "m_ready (m_reading_semaphore rb)" "\<not> m_is_reading_cancelled rb"
    using read_resume_via [OF k h(1,2)
        failed_read_admitted(2) [OF h(3) [unfolded rcells_def fill_def]],
        where f = f and s = s and count = count] h(3)
    unfolding no_progress_def rcells_def fill_def
    by (simp split: call.splits)
  have t1: "r1 = status_long INTERNAL_ERROR \<and> m_counters rb1 = m_counters rb"
    if "write_via rb (traced f) (s, False) count = Returned rb1 (s1, True) r1"
    using write_via_traced [OF that] by simp
  have t2: "r1 = status_long INTERNAL_ERROR \<and> m_counters rb1 = m_counters rb"
    if "read_via rb (traced f) (s, False) count = Returned rb1 (s1, True) r1"
    using read_via_traced [OF that] by simp
  show ?thesis
    using w wr r rr t1 t2 by blast
qed

theorem failed_callback_no_progress_witness:
  "wf fresh4 \<and> counters_ok fresh4 \<and>
   callback_run second_call_fails 0 [0, 0, 0] = (False, [0, 1, 0], 2) \<and>
   (case write_via fresh4 second_call_fails 0 3 of
      Returned rb' s' r \<Rightarrow>
        r = - 1 \<and> s' = 2 \<and> m_produced (m_counters rb') = 0 \<and> m_dropped (m_counters rb') = 0
    | Parked rb' \<Rightarrow> False
    | Undefined \<Rightarrow> False) \<and>
   (case write_resume (\<lambda>dst mem data. xfer_producer dst mem data) functor_advance
           (fresh4\<lparr>m_flags := RINGBUFFER_RD_BLOCKING_WR_BLOCKING\<rparr>) 0 second_call_fails 3 of
      Returned rb' s' r \<Rightarrow>
        r = - 1 \<and> s' = 2 \<and> m_produced (m_counters rb') = 0 \<and> m_dropped (m_counters rb') = 0
    | Parked rb' \<Rightarrow> False
    | Undefined \<Rightarrow> False) \<and>
   wf loaded4 \<and> counters_ok loaded4 \<and>
   callback_run second_call_fails 0 [1, 2, 3] = (False, [0, 1, 3], 2) \<and>
   (case read_via loaded4 second_call_fails 0 3 of
      Returned rb' s' r \<Rightarrow>
        r = - 1 \<and> s' = 2 \<and> m_consumed (m_counters rb') = 0 \<and> m_dropped (m_counters rb') = 0
    | Parked rb' \<Rightarrow> False
    | Undefined \<Rightarrow> False) \<and>
   (case read_resume (\<lambda>mem data src. xfer_consumer mem data src) functor_advance
           (loaded4\<lparr>m_flags := RINGBUFFER_RD_BLOCKING_WR_BLOCKING,
                    m_reading_semaphore := post (m_reading_semaphore loaded4)\<rparr>)
           0 second_call_fails 3 of
      Returned rb' s' r \<Rightarrow>
        r = - 1 \<and> s' = 2 \<and> m_consumed (m_counters rb') = 0 \<and> m_dropped (m_counters rb') = 0
    | Parked rb' \<Rightarrow> False
    | Undefined \<Rightarrow> False) \<and>
   write_via fresh4 (traced second_call_fails) (0, False) 3
     = Returned (fresh4\<lparr>m_buffer := [0, 1, 0, 0]\<rparr>) (2, True) (- 1) \<and>
   m_counters (fresh4\<lparr>m_buffer := [0, 1, 0, 0]\<rparr>) = m_counters fresh4 \<and>
   read_via loaded4 (traced second_call_fails) (0, False) 3
     = Returned (loaded4\<lparr>m_buffer := [0, 1, 3, 0]\<rparr>) (2, True) (- 1) \<and>
   m_counters (loaded4\<lparr>m_buffer := [0, 1, 3, 0]\<rparr>) = m_counters loaded4"
proof -
  define wq where "wq = fresh4\<lparr>m_flags := RINGBUFFER_RD_BLOCKING_WR_BLOCKING\<rparr>"
  define rq where "rq = loaded4\<lparr>m_flags := RINGBUFFER_RD_BLOCKING_WR_BLOCKING,
                    m_reading_semaphore := post (m_reading_semaphore loaded4)\<rparr>"
  have runs: "callback_run second_call_fails 0 [0, 0, 0] = (False, [0, 1, 0], 2)"
    "callback_run second_call_fails 0 [1, 2, 3] = (False, [0, 1, 3], 2)"
    by code_simp+
  have cw: "ring_cells (m_buffer fresh4)
        (unat (m_produced (m_counters fresh4)) mod unat (m_capacity fresh4))
        (min (unat (3::size_t)) (unat (m_capacity fresh4) -
           unat (m_produced (m_counters fresh4) - m_consumed (m_counters fresh4)))) = [0, 0, 0]"
    "ring_cells (m_buffer wq)
        (unat (m_produced (m_counters wq)) mod unat (m_capacity wq))
        (min (unat (3::size_t)) (unat (m_capacity wq) -
           unat (m_produced (m_counters wq) - m_consumed (m_counters wq)))) = [0, 0, 0]"
    unfolding wq_def by code_simp+
  have cr: "take (min (unat (3::size_t))
        (unat (m_produced (m_counters loaded4) - m_consumed (m_counters loaded4))))
        (pending loaded4) = [1, 2, 3]"
    "take (min (unat (3::size_t))
        (unat (m_produced (m_counters rq) - m_consumed (m_counters rq))))
        (pending rq) = [1, 2, 3]"
    unfolding rq_def by code_simp+
  have hw: "wf fresh4" "counters_ok fresh4" "wf wq" "counters_ok wq"
    "m_ready (m_writing_semaphore wq)" "\<not> m_is_writing_cancelled wq"
    unfolding wq_def by code_simp+
  have hr: "wf loaded4" "counters_ok loaded4" "wf rq" "counters_ok rq"
    "m_ready (m_reading_semaphore rq)" "\<not> m_is_reading_cancelled rq"
    unfolding rq_def by code_simp+
  have cs: "m_produced (m_counters fresh4) = 0" "m_consumed (m_counters fresh4) = 0"
    "m_dropped (m_counters fresh4) = 0"
    "m_produced (m_counters wq) = 0" "m_consumed (m_counters wq) = 0"
    "m_dropped (m_counters wq) = 0"
    "m_produced (m_counters loaded4) = 3" "m_consumed (m_counters loaded4) = 0"
    "m_dropped (m_counters loaded4) = 0"
    "m_produced (m_counters rq) = 3" "m_consumed (m_counters rq) = 0"
    "m_dropped (m_counters rq) = 0"
    by (simp_all add: wq_def rq_def fresh4_def loaded4_def)
  have tw: "write_via fresh4 (traced second_call_fails) (0, False) 3
      = Returned (fresh4\<lparr>m_buffer := [0, 1, 0, 0]\<rparr>) (2, True) (- 1)"
    by code_simp
  have tr: "read_via loaded4 (traced second_call_fails) (0, False) 3
      = Returned (loaded4\<lparr>m_buffer := [0, 1, 3, 0]\<rparr>) (2, True) (- 1)"
    by code_simp
  have W1: "case write_via fresh4 second_call_fails 0 3 of
      Returned rb' s' r \<Rightarrow>
        r = - 1 \<and> s' = 2 \<and> m_produced (m_counters rb') = 0 \<and> m_dropped (m_counters rb') = 0
    | Parked rb' \<Rightarrow> False
    | Undefined \<Rightarrow> False"
    using failed_callback_no_progress [where rb = fresh4 and f = second_call_fails
        and s = 0 and count = 3, unfolded cw, unfolded runs, unfolded cs, THEN conjunct1] hw(1,2)
    by (auto split: call.splits)
  have W2: "case write_resume (\<lambda>dst mem data. xfer_producer dst mem data) functor_advance
           wq 0 second_call_fails 3 of
      Returned rb' s' r \<Rightarrow>
        r = - 1 \<and> s' = 2 \<and> m_produced (m_counters rb') = 0 \<and> m_dropped (m_counters rb') = 0
    | Parked rb' \<Rightarrow> False
    | Undefined \<Rightarrow> False"
    using failed_callback_no_progress [where rb = wq and f = second_call_fails
        and s = 0 and count = 3, unfolded cw, unfolded runs, unfolded cs, THEN conjunct1] hw(3-)
    by (auto split: call.splits)
  have R1: "case read_via loaded4 second_call_fails 0 3 of
      Returned rb' s' r \<Rightarrow>
        r = - 1 \<and> s' = 2 \<and> m_consumed (m_counters rb') = 0 \<and> m_dropped (m_counters rb') = 0
    | Parked rb' \<Rightarrow> False
    | Undefined \<Rightarrow> False"
    using failed_callback_no_progress [where rb = loaded4 and f = second_call_fails
        and s = 0 and count = 3, unfolded cr, unfolded runs, unfolded cs, THEN conjunct2, THEN conjunct1] hr(1,2)
    by (auto split: call.splits)
  have R2: "case read_resume (\<lambda>mem data src. xfer_consumer mem data src) functor_advance
           rq 0 second_call_fails 3 of
      Returned rb' s' r \<Rightarrow>
        r = - 1 \<and> s' = 2 \<and> m_consumed (m_counters rb') = 0 \<and> m_dropped (m_counters rb') = 0
    | Parked rb' \<Rightarrow> False
    | Undefined \<Rightarrow> False"
    using failed_callback_no_progress [where rb = rq and f = second_call_fails
        and s = 0 and count = 3, unfolded cr, unfolded runs, unfolded cs, THEN conjunct2, THEN conjunct1] hr(3-)
    by (auto split: call.splits)
  have M1: "m_counters (fresh4\<lparr>m_buffer := [0, 1, 0, 0]\<rparr>) = m_counters fresh4"
    using failed_callback_no_progress [where rb = fresh4 and f = second_call_fails
        and s = 0 and count = 3 and ?rb1.0 = "fresh4\<lparr>m_buffer := [0, 1, 0, 0]\<rparr>"
        and ?s1.0 = 2 and ?r1.0 = "- 1",
        THEN conjunct2, THEN conjunct2, THEN conjunct1] tw
    by blast
  have M2: "m_counters (loaded4\<lparr>m_buffer := [0, 1, 3, 0]\<rparr>) = m_counters loaded4"
    using failed_callback_no_progress [where rb = loaded4 and f = second_call_fails
        and s = 0 and count = 3 and ?rb1.0 = "loaded4\<lparr>m_buffer := [0, 1, 3, 0]\<rparr>"
        and ?s1.0 = 2 and ?r1.0 = "- 1",
        THEN conjunct2, THEN conjunct2, THEN conjunct2] tr
    by blast
  show ?thesis
    unfolding wq_def [symmetric] rq_def [symmetric]
    by (intro conjI hw hr runs W1 W2 R1 R2 tw tr M1 M2)
qed

section \<open>Non-blocking writes\<close>

text \<open>
  C2. The claim does not hold for the callback overload of \<^verbatim>\<open>write\<close>. The ring
  buffer \<open>fresh4\<close> has capacity 4, non-blocking writes, valid counters and four
  free cells. A request of three elements whose callback returns false at its
  second call returns \<^verbatim>\<open>INTERNAL_ERROR = -1\<close>, not \<open>min 3 (4 - 0) = 3\<close>, and
  \<^verbatim>\<open>m_produced\<close> is still 0: no element has been transferred.
\<close>

theorem nonblocking_write_counterexample:
  "wf fresh4 \<and> counters_ok fresh4 \<and>
   test (m_flags fresh4) RINGBUFFER_NONBLOCKING_WRITE_SHIFT \<and>
   unat (m_capacity fresh4) = 4 \<and>
   unat (m_produced (m_counters fresh4) - m_consumed (m_counters fresh4)) = 0 \<and>
   write_via fresh4 second_call_fails 0 3 =
     Returned (fresh4\<lparr>m_buffer := [0, 1, 0, 0]\<rparr>) 2 (status_long INTERNAL_ERROR) \<and>
   status_long INTERNAL_ERROR \<noteq> int (min 3 (4 - 0)) \<and>
   m_produced (m_counters (fresh4\<lparr>m_buffer := [0, 1, 0, 0]\<rparr>)) = 0"
  by code_simp

text \<open>
  C2, amended. On a well-formed ring buffer of capacity \<open>C\<close> whose counters satisfy
  the two invariants and whose writes are non-blocking, a write request of
  \<open>n > 0\<close> elements behaves as follows. If \<^verbatim>\<open>produced - consumed = C\<close> it returns
  \<^verbatim>\<open>WOULD_BLOCK = -2\<close> and its only effect is to add one to \<^verbatim>\<open>m_dropped\<close> (modulo
  \<open>2^64\<close>), whatever \<open>n\<close> is: this holds for the private template \<^verbatim>\<open>write\<close> with any
  transfer function, hence for the array overloads (copying or moving) and for
  the callback overload. Otherwise an array overload returns
  \<open>min n (C - (produced - consumed))\<close>, appends exactly that many elements, the
  first of the array, to the pending elements, advances \<^verbatim>\<open>m_produced\<close> by that
  number and leaves \<^verbatim>\<open>m_consumed\<close> and \<^verbatim>\<open>m_dropped\<close> unchanged. The callback overload
  hands the \<open>min n (C - (produced - consumed))\<close> cells from the write index on to
  the callback, one after the other; when every call has returned true it
  returns that number, the cells as the callback has left them are appended to
  the pending elements and \<^verbatim>\<open>m_produced\<close> is advanced by that number; when a call
  has returned false it returns \<^verbatim>\<open>INTERNAL_ERROR = -1\<close> and \<^verbatim>\<open>m_produced\<close> is
  unchanged; in both cases \<^verbatim>\<open>m_consumed\<close> and \<^verbatim>\<open>m_dropped\<close> are unchanged. In
  particular, writing \<open>[1, 2, 3, 4]\<close> into a freshly constructed ring buffer of
  capacity 2 returns 2, the array holds \<open>[1, 2]\<close> and \<^verbatim>\<open>m_dropped\<close> is unchanged.
\<close>

theorem nonblocking_write:
  fixes rb :: "'a ringbuffer" and count :: size_t and f :: "('a, 's) callback" and s :: 's
    and xs :: "'a list"
  assumes wf: "wf rb" and ok: "counters_ok rb"
    and nb: "test (m_flags rb) RINGBUFFER_NONBLOCKING_WRITE_SHIFT"
  defines "fill \<equiv> unat (m_produced (m_counters rb) - m_consumed (m_counters rb))"
    and "C \<equiv> unat (m_capacity rb)"
  defines "rejected \<equiv>
      rb\<lparr>m_counters := (m_counters rb)\<lparr>m_dropped := m_dropped (m_counters rb) + 1\<rparr>\<rparr>"
    and "serviced \<equiv> \<lambda>res.
      (case res of
         Returned rb' xs' r \<Rightarrow>
           r = int (min (length xs) (C - fill)) \<and>
           pending rb' = pending rb @ take (min (length xs) (C - fill)) xs \<and>
           m_produced (m_counters rb') =
             m_produced (m_counters rb) + of_nat (min (length xs) (C - fill)) \<and>
           m_consumed (m_counters rb') = m_consumed (m_counters rb) \<and>
           m_dropped (m_counters rb') = m_dropped (m_counters rb)
       | Parked rb' \<Rightarrow> False
       | Undefined \<Rightarrow> False)"
    and "k \<equiv> min (unat count) (C - fill)"
  defines "calls \<equiv> callback_run f s
      (ring_cells (m_buffer rb) (unat (m_produced (m_counters rb)) mod C) k)"
  shows "(fill = C \<longrightarrow>
            (count \<noteq> 0 \<longrightarrow>
               rb_write xfer advance rb mem data count =
                 Returned rejected mem (status_long WOULD_BLOCK) \<and>
               write_via rb f s count = Returned rejected s (status_long WOULD_BLOCK)) \<and>
            (0 < length xs \<and> length xs < 2 ^ 64 \<longrightarrow>
               write_copy rb xs = Returned rejected xs (status_long WOULD_BLOCK) \<and>
               write_move mf rb xs = Returned rejected xs (status_long WOULD_BLOCK))) \<and>
         (fill \<noteq> C \<longrightarrow>
            (0 < length xs \<and> length xs < 2 ^ 64 \<longrightarrow>
               serviced (write_copy rb xs) \<and> serviced (write_move mf rb xs)) \<and>
            (count \<noteq> 0 \<longrightarrow>
               (case write_via rb f s count of
                  Returned rb' s' r \<Rightarrow>
                    s' = snd (snd calls) \<and>
                    m_consumed (m_counters rb') = m_consumed (m_counters rb) \<and>
                    m_dropped (m_counters rb') = m_dropped (m_counters rb) \<and>
                    (if fst calls then
                       r = int k \<and>
                       pending rb' = pending rb @ fst (snd calls) \<and>
                       m_produced (m_counters rb') = m_produced (m_counters rb) + of_nat k
                     else
                       r = status_long INTERNAL_ERROR \<and>
                       m_produced (m_counters rb') = m_produced (m_counters rb))
                | Parked rb' \<Rightarrow> False
                | Undefined \<Rightarrow> False))) \<and>
         (case ringbuffer_new (0::int) 2 RINGBUFFER_RD_NONBLOCKING_WR_NONBLOCKING of
            Some rb0 \<Rightarrow>
              (case write_copy rb0 [1, 2, 3, 4] of
                 Returned rb' xs' r \<Rightarrow>
                   r = 2 \<and> m_buffer rb' = [1, 2] \<and>
                   m_dropped (m_counters rb') = m_dropped (m_counters rb0)
               | Parked rb' \<Rightarrow> False
               | Undefined \<Rightarrow> False)
          | None \<Rightarrow> False)"
proof -
  have full: "m_produced (m_counters rb) - m_consumed (m_counters rb) = m_capacity rb"
    if "fill = C"
    using that by (simp add: fill_def C_def word_unat_eq_iff)
  have room: "m_produced (m_counters rb) - m_consumed (m_counters rb) \<noteq> m_capacity rb"
    if "fill \<noteq> C"
    using that by (auto simp: fill_def C_def)
  have 1: "rb_write xfer advance rb mem data count =
      Returned rejected mem (status_long WOULD_BLOCK)"
    if "fill = C" "count \<noteq> 0"
    unfolding rejected_def
    by (rule rb_write_full_nonblocking [OF that(2) ok full [OF that(1)] nb])
  have 2: "write_via rb f s count = Returned rejected s (status_long WOULD_BLOCK)"
    if "fill = C" "count \<noteq> 0"
    unfolding rejected_def
    by (rule write_via_full_nonblocking [OF that(2) ok full [OF that(1)] nb])
  have 3: "write_move g rb xs = Returned rejected xs (status_long WOULD_BLOCK)"
    if "fill = C" "0 < length xs" "length xs < 2 ^ 64" for g
    using write_move_nonblocking [OF wf ok nb that(2,3), where mf = g] that(1)
    unfolding rejected_def fill_def C_def by blast
  have 4: "serviced (write_move g rb xs)"
    if "fill \<noteq> C" "0 < length xs" "length xs < 2 ^ 64" for g
    using write_move_nonblocking [OF wf ok nb that(2,3), where mf = g] that(1)
    unfolding serviced_def fill_def C_def by blast
  have 5: "case write_via rb f s count of
        Returned rb' s' r \<Rightarrow>
          s' = snd (snd calls) \<and>
          m_consumed (m_counters rb') = m_consumed (m_counters rb) \<and>
          m_dropped (m_counters rb') = m_dropped (m_counters rb) \<and>
          (if fst calls then
             r = int k \<and>
             pending rb' = pending rb @ fst (snd calls) \<and>
             m_produced (m_counters rb') = m_produced (m_counters rb) + of_nat k
           else
             r = status_long INTERNAL_ERROR \<and>
             m_produced (m_counters rb') = m_produced (m_counters rb))
      | Parked rb' \<Rightarrow> False
      | Undefined \<Rightarrow> False"
    if "fill \<noteq> C" "count \<noteq> 0"
    unfolding calls_def k_def fill_def C_def
    by (rule write_via_serviced [OF that(2) wf ok room [OF that(1)]])
  show ?thesis
    using 1 2 3 [where g = mf] 3 [where g = "\<lambda>x. x"] 4 [where g = mf] 4 [where g = "\<lambda>x. x"]
      5 partial_write_scenario
    unfolding write_copy_eq_move
    by blast
qed

theorem nonblocking_write_witness:
  "wf loaded4 \<and> counters_ok loaded4 \<and>
   test (m_flags loaded4) RINGBUFFER_NONBLOCKING_WRITE_SHIFT \<and>
   pending loaded4 = [1, 2, 3] \<and>
   (case write_copy loaded4 [7, 8] of
      Returned rb' xs' r \<Rightarrow> r = 1 \<and> pending rb' = [1, 2, 3, 7] \<and> m_dropped (m_counters rb') = 0
    | Parked rb' \<Rightarrow> False
    | Undefined \<Rightarrow> False) \<and>
   (case write_via loaded4 second_call_fails 0 2 of
      Returned rb' s' r \<Rightarrow>
        r = 1 \<and> s' = 1 \<and> pending rb' = [1, 2, 3, 0] \<and> m_produced (m_counters rb') = 4 \<and>
        m_dropped (m_counters rb') = 0
    | Parked rb' \<Rightarrow> False
    | Undefined \<Rightarrow> False) \<and>
   wf fresh4 \<and> counters_ok fresh4 \<and>
   test (m_flags fresh4) RINGBUFFER_NONBLOCKING_WRITE_SHIFT \<and>
   (case write_via fresh4 second_call_fails 0 3 of
      Returned rb' s' r \<Rightarrow>
        r = - 1 \<and> s' = 2 \<and> m_produced (m_counters rb') = 0 \<and> m_dropped (m_counters rb') = 0
    | Parked rb' \<Rightarrow> False
    | Undefined \<Rightarrow> False) \<and>
   wf full4 \<and> counters_ok full4 \<and>
   test (m_flags full4) RINGBUFFER_NONBLOCKING_WRITE_SHIFT \<and>
   write_copy full4 [7, 8] =
     Returned (full4\<lparr>m_counters := (m_counters full4)\<lparr>m_dropped := 1\<rparr>\<rparr>) [7, 8] (- 2) \<and>
   write_via full4 second_call_fails 0 2 =
     Returned (full4\<lparr>m_counters := (m_counters full4)\<lparr>m_dropped := 1\<rparr>\<rparr>) 0 (- 2)"
proof -
  have l: "wf loaded4" "counters_ok loaded4"
    "test (m_flags loaded4) RINGBUFFER_NONBLOCKING_WRITE_SHIFT"
    by code_simp+
  have e: "wf fresh4" "counters_ok fresh4"
    "test (m_flags fresh4) RINGBUFFER_NONBLOCKING_WRITE_SHIFT"
    by code_simp+
  have f: "wf full4" "counters_ok full4"
    "test (m_flags full4) RINGBUFFER_NONBLOCKING_WRITE_SHIFT"
    by code_simp+
  have n: "0 < length [7, 8 :: int] \<and> length [7, 8 :: int] < 2 ^ 64"
    by simp
  have c: "(2::size_t) \<noteq> 0" "(3::size_t) \<noteq> 0"
    by simp_all
  have pl: "pending loaded4 = [1, 2, 3]"
    by code_simp
  have vl: "unat (m_produced (m_counters loaded4) - m_consumed (m_counters loaded4)) = 3"
    "unat (m_capacity loaded4) = 4" "m_dropped (m_counters loaded4) = 0"
    "m_produced (m_counters loaded4) = 3" "m_consumed (m_counters loaded4) = 0"
    by code_simp+
  have ve: "unat (m_produced (m_counters fresh4) - m_consumed (m_counters fresh4)) = 0"
    "unat (m_capacity fresh4) = 4" "m_dropped (m_counters fresh4) = 0"
    "m_produced (m_counters fresh4) = 0" "m_consumed (m_counters fresh4) = 0"
    by code_simp+
  have vf: "unat (m_produced (m_counters full4) - m_consumed (m_counters full4)) = 4"
    "unat (m_capacity full4) = 4" "m_dropped (m_counters full4) = 0"
    by code_simp+
  have runs: "callback_run second_call_fails 0
        (ring_cells (m_buffer loaded4) (unat (m_produced (m_counters loaded4)) mod 4)
           (min (unat (2::size_t)) (4 - 3)))
      = (True, [0], 1)"
    "callback_run second_call_fails 0
        (ring_cells (m_buffer fresh4) (unat (m_produced (m_counters fresh4)) mod 4)
           (min (unat (3::size_t)) (4 - 0)))
      = (False, [0, 1, 0], 2)"
    by code_simp+
  have neq: "3 \<noteq> (4::nat)" "0 \<noteq> (4::nat)"
    by simp_all
  have A: "case write_copy loaded4 [7, 8] of
      Returned rb' xs' r \<Rightarrow> r = 1 \<and> pending rb' = [1, 2, 3, 7] \<and> m_dropped (m_counters rb') = 0
    | Parked rb' \<Rightarrow> False
    | Undefined \<Rightarrow> False"
    using nonblocking_write [OF l, where xs = "[7, 8]", unfolded vl(1,2),
        THEN conjunct2, THEN conjunct1, THEN mp, OF neq(1), THEN conjunct1, THEN mp, OF n,
        THEN conjunct1]
    by (auto simp: pl vl split: call.splits)
  have B: "case write_via loaded4 second_call_fails 0 2 of
      Returned rb' s' r \<Rightarrow>
        r = 1 \<and> s' = 1 \<and> pending rb' = [1, 2, 3, 0] \<and> m_produced (m_counters rb') = 4 \<and>
        m_dropped (m_counters rb') = 0
    | Parked rb' \<Rightarrow> False
    | Undefined \<Rightarrow> False"
    using nonblocking_write [OF l, where f = second_call_fails and s = 0 and count = 2,
        unfolded vl(1,2), unfolded runs,
        THEN conjunct2, THEN conjunct1, THEN mp, OF neq(1), THEN conjunct2, THEN mp, OF c(1)]
    by (auto simp: pl vl split: call.splits)
  have C: "case write_via fresh4 second_call_fails 0 3 of
      Returned rb' s' r \<Rightarrow>
        r = - 1 \<and> s' = 2 \<and> m_produced (m_counters rb') = 0 \<and> m_dropped (m_counters rb') = 0
    | Parked rb' \<Rightarrow> False
    | Undefined \<Rightarrow> False"
    using nonblocking_write [OF e, where f = second_call_fails and s = 0 and count = 3,
        unfolded ve(1,2), unfolded runs,
        THEN conjunct2, THEN conjunct1, THEN mp, OF neq(2), THEN conjunct2, THEN mp, OF c(2)]
    by (auto simp: ve split: call.splits)
  have D: "write_copy full4 [7, 8] =
      Returned (full4\<lparr>m_counters := (m_counters full4)\<lparr>m_dropped := 1\<rparr>\<rparr>) [7, 8] (- 2)"
    using nonblocking_write [OF f, where xs = "[7, 8]", unfolded vf(1,2),
        THEN conjunct1, THEN mp, OF refl, THEN conjunct2, THEN mp, OF n, THEN conjunct1]
    by (simp add: vf)
  have E: "write_via full4 second_call_fails 0 2 =
      Returned (full4\<lparr>m_counters := (m_counters full4)\<lparr>m_dropped := 1\<rparr>\<rparr>) 0 (- 2)"
    using nonblocking_write [OF f, where f = second_call_fails and s = 0 and count = 2,
        unfolded vf(1,2),
        THEN conjunct1, THEN mp, OF refl, THEN conjunct1, THEN mp, OF c(1), THEN conjunct2]
    by (simp add: vf)
  show ?thesis
    by (intro conjI l e f pl A B C D E)
qed

end
